theory Spec2Isabelle
  imports Complex_Main
begin

section \<open>The maximum-flow engine (class MaxFlow)\<close>

text \<open>
  The class keeps the node count (the member \<open>n\<close>, the field \<open>mf_n\<close> here), the dense
  matrix of residual capacities and the adjacency lists. Node ids are indices, so they
  are natural numbers here; the matrix entries are C++ \<open>int\<close>s, modelled as mathematical
  integers (signed overflow is undefined in C++; the capacities the reduction produces
  lie between 1 and 100, and the lemmas \<open>during_entry_bound\<close> and \<open>loop_head_flow_bound\<close>
  bound every later value by the initial capacities).

  Indexing a vector out of range is undefined in C++. Every function below that indexes
  returns an option: \<open>None\<close> stands for "no defined result" (an out-of-range index, the
  sentinel -1 used as an index, or a loop that never ends).
\<close>

record MaxFlow =
  mf_n :: nat
  capacity :: "int list list"
  adj :: "nat list list"

definition INT_MAX :: int where
  "INT_MAX = 2147483647"

text \<open>The constructor: \<open>n(n), capacity(n, vector<int>(n, 0)), adj(n)\<close>.\<close>

definition MaxFlow_init :: "nat \<Rightarrow> MaxFlow" where
  "MaxFlow_init k = \<lparr> mf_n = k, capacity = replicate k (replicate k 0), adj = replicate k [] \<rparr>"

definition in_range :: "int list list \<Rightarrow> nat \<Rightarrow> nat \<Rightarrow> bool" where
  "in_range c u v \<longleftrightarrow> u < length c \<and> v < length (c ! u)"

text \<open>
  \<open>c[u][v] += x\<close> on the matrix. The sum is the exact one: it is the value of the C++
  \<open>int\<close> addition as long as it lies between \<open>INT_MIN\<close> and \<open>INT_MAX\<close>, and C++
  defines no value beyond. The capacities that \<open>solve\<close> hands over lie between 1 and
  100; the theorems about engines built by arbitrary \<open>addEdge\<close> calls assume that the
  capacities fit (\<open>cells_fit\<close>, \<open>pairs_fit\<close>, \<open>source_fits\<close> below) and show that every
  value computed then stays between 0 and \<open>INT_MAX\<close>.
\<close>

definition cell_add :: "int list list \<Rightarrow> nat \<Rightarrow> nat \<Rightarrow> int \<Rightarrow> int list list" where
  "cell_add c u v x = c[u := (c ! u)[v := c ! u ! v + x]]"

text \<open>\<open>adj[u].push_back(v); adj[v].push_back(u);\<close>\<close>

definition push_both :: "nat list list \<Rightarrow> nat \<Rightarrow> nat \<Rightarrow> nat list list" where
  "push_both a u v = (let a1 = a[u := a ! u @ [v]] in a1[v := a1 ! v @ [u]])"

definition addEdge :: "MaxFlow \<Rightarrow> nat \<Rightarrow> nat \<Rightarrow> int \<Rightarrow> MaxFlow option" where
  "addEdge mf u v cap =
     (if \<not> (in_range (capacity mf) u v \<and> in_range (capacity mf) v u) then None
      else if capacity mf ! u ! v = 0 \<and> capacity mf ! v ! u = 0 then
        (if u < length (adj mf) \<and> v < length (adj mf)
         then Some (mf\<lparr> adj := push_both (adj mf) u v,
                        capacity := cell_add (capacity mf) u v cap \<rparr>)
         else None)
      else Some (mf\<lparr> capacity := cell_add (capacity mf) u v cap \<rparr>))"

text \<open>A sequence of \<open>addEdge\<close> calls, each given as \<open>(u, v, cap)\<close>.\<close>

fun add_edges :: "MaxFlow \<Rightarrow> (nat \<times> nat \<times> int) list \<Rightarrow> MaxFlow option" where
  "add_edges mf [] = Some mf"
| "add_edges mf (e # es) =
     (case addEdge mf (fst e) (fst (snd e)) (snd (snd e)) of
        None \<Rightarrow> None
      | Some mf' \<Rightarrow> add_edges mf' es)"

text \<open>
  The parent vector holds -1 for "not discovered" and a node id otherwise: an
  \<open>option\<close> per node, \<open>None\<close> for -1.

  \<open>bfs_scan\<close> is the \<open>for (int v : adj[u])\<close> loop of \<open>bfs\<close>; its boolean result is
  true when the loop returned from \<open>bfs\<close> because it reached the sink.
\<close>

fun bfs_scan :: "int list list \<Rightarrow> nat \<Rightarrow> int \<Rightarrow> nat \<Rightarrow> nat list \<Rightarrow> nat option list
    \<Rightarrow> (nat \<times> int) list \<Rightarrow> (bool \<times> nat option list \<times> (nat \<times> int) list) option" where
  "bfs_scan c u flow sink [] parent q = Some (False, parent, q)"
| "bfs_scan c u flow sink (v # vs) parent q =
     (if \<not> v < length parent then None
      else if parent ! v \<noteq> None then bfs_scan c u flow sink vs parent q
      else if \<not> in_range c u v then None
      else if c ! u ! v > 0 then
        (let parent' = parent[v := Some u];
             new_flow = min flow (c ! u ! v)
         in if v = sink then Some (True, parent', q)
            else bfs_scan c u flow sink vs parent' (q @ [(v, new_flow)]))
      else bfs_scan c u flow sink vs parent q)"

text \<open>The \<open>while (!q.empty())\<close> loop of \<open>bfs\<close>.\<close>

partial_function (option) bfs_loop :: "MaxFlow \<Rightarrow> nat \<Rightarrow> (nat \<times> int) list \<Rightarrow> nat option list
    \<Rightarrow> (bool \<times> nat option list) option" where
  "bfs_loop mf sink q parent =
     (case q of
        [] \<Rightarrow> Some (False, parent)
      | x # q' \<Rightarrow>
          if fst x < length (adj mf) then
            (case bfs_scan (capacity mf) (fst x) (snd x) sink (adj mf ! fst x) parent q' of
               None \<Rightarrow> None
             | Some r \<Rightarrow>
                 if fst r then Some (True, fst (snd r))
                 else bfs_loop mf sink (snd (snd r)) (fst (snd r)))
          else None)"

declare bfs_loop.simps [code]

text \<open>
  \<open>bfs\<close> refills the caller's parent vector (of size \<open>n\<close>) and returns whether the
  sink was reached; the parent vector is returned with it.
\<close>

definition bfs :: "MaxFlow \<Rightarrow> nat \<Rightarrow> nat \<Rightarrow> (bool \<times> nat option list) option" where
  "bfs mf source sink =
     (if source < mf_n mf then
        bfs_loop mf sink [(source, INT_MAX)] ((replicate (mf_n mf) None)[source := Some source])
      else None)"

text \<open>The first \<open>for (v = sink; v != source; v = parent[v])\<close> loop: the bottleneck.\<close>

partial_function (option) path_min :: "nat option list \<Rightarrow> int list list \<Rightarrow> nat \<Rightarrow> nat \<Rightarrow> int
    \<Rightarrow> int option" where
  "path_min parent c source v path_flow =
     (if v = source then Some path_flow
      else if \<not> v < length parent then None
      else (case parent ! v of
              None \<Rightarrow> None
            | Some u \<Rightarrow>
                if in_range c u v then path_min parent c source u (min path_flow (c ! u ! v))
                else None))"

declare path_min.simps [code]

text \<open>One pass of the body of the second loop: the arc \<open>u \<rightarrow> v\<close> gives up \<open>path_flow\<close>.\<close>

definition push_arc :: "int list list \<Rightarrow> nat \<Rightarrow> nat \<Rightarrow> int \<Rightarrow> int list list" where
  "push_arc c u v path_flow = cell_add (cell_add c u v (- path_flow)) v u path_flow"

partial_function (option) augment :: "nat option list \<Rightarrow> nat \<Rightarrow> int \<Rightarrow> nat \<Rightarrow> int list list
    \<Rightarrow> int list list option" where
  "augment parent source path_flow v c =
     (if v = source then Some c
      else if \<not> v < length parent then None
      else (case parent ! v of
              None \<Rightarrow> None
            | Some u \<Rightarrow>
                if in_range c u v \<and> in_range c v u
                then augment parent source path_flow u (push_arc c u v path_flow)
                else None))"

declare augment.simps [code]

text \<open>
  The \<open>while (bfs(source, sink, parent))\<close> loop of \<open>maxflow\<close>. \<open>flow += path_flow\<close> is the
  exact sum, with the same proviso as \<open>cell_add\<close>: the flow never exceeds the capacity
  that leaves the source (\<open>loop_head_flow_bound\<close>), which \<open>source_fits\<close> keeps within
  \<open>INT_MAX\<close>.
\<close>

partial_function (option) maxflow_loop :: "MaxFlow \<Rightarrow> nat \<Rightarrow> nat \<Rightarrow> int \<Rightarrow> (int \<times> MaxFlow) option" where
  "maxflow_loop mf source sink flow =
     (case bfs mf source sink of
        None \<Rightarrow> None
      | Some r \<Rightarrow>
          if \<not> fst r then Some (flow, mf)
          else (case path_min (snd r) (capacity mf) source sink INT_MAX of
                  None \<Rightarrow> None
                | Some path_flow \<Rightarrow>
                    (case augment (snd r) source path_flow sink (capacity mf) of
                       None \<Rightarrow> None
                     | Some c' \<Rightarrow>
                         maxflow_loop (mf\<lparr> capacity := c' \<rparr>) source sink (flow + path_flow))))"

declare maxflow_loop.simps [code]

definition maxflow :: "MaxFlow \<Rightarrow> nat \<Rightarrow> nat \<Rightarrow> (int \<times> MaxFlow) option" where
  "maxflow mf source sink = maxflow_loop mf source sink 0"

text \<open>
  \<open>getUsedCorridors\<close>: the inner loop over \<open>j\<close> and the outer loop over \<open>i\<close>, reading
  \<open>capacity[j][i]\<close>.
\<close>

type_synonym corridor = "(nat \<times> nat) \<times> int"

fun used_inner :: "int list list \<Rightarrow> nat \<Rightarrow> nat list \<Rightarrow> corridor list \<Rightarrow> corridor list option" where
  "used_inner c i [] corridors = Some corridors"
| "used_inner c i (j # js) corridors =
     (if \<not> in_range c j i then None
      else if c ! j ! i > 0 then used_inner c i js (corridors @ [((i, j), c ! j ! i)])
      else used_inner c i js corridors)"

fun used_outer :: "int list list \<Rightarrow> nat \<Rightarrow> nat list \<Rightarrow> corridor list \<Rightarrow> corridor list option" where
  "used_outer c numH [] corridors = Some corridors"
| "used_outer c numH (i # is) corridors =
     (case used_inner c i [Suc i ..< numH] corridors of
        None \<Rightarrow> None
      | Some corridors' \<Rightarrow> used_outer c numH is corridors')"

definition getUsedCorridors :: "MaxFlow \<Rightarrow> nat \<Rightarrow> corridor list option" where
  "getUsedCorridors mf numH = used_outer (capacity mf) numH [0 ..< numH] []"

section \<open>The reduction (class WildlifeCorridorNetwork)\<close>

text \<open>
  \<open>corridorCapacity\<close> is a \<open>std::map\<close> keyed by pairs of ints: an association list
  kept in the map's iteration order (keys ascending, first component first), one entry
  per key. Coordinates are C++ doubles; no arithmetic on them is modelled here, the
  distance and the rounding to an int are parameters of the capacity rule below.
\<close>

type_synonym location = "real \<times> real"

record WildlifeCorridorNetwork =
  numHabitats :: nat
  habitatLocations :: "location list"
  corridorCapacity :: "corridor list"
  sourceHabitat :: nat
  targetHabitat :: nat

text \<open>The constructor (\<open>resize\<close> fills the locations with \<open>(0.0, 0.0)\<close>).\<close>

definition WildlifeCorridorNetwork_init :: "nat \<Rightarrow> nat \<Rightarrow> nat \<Rightarrow> WildlifeCorridorNetwork" where
  "WildlifeCorridorNetwork_init habitats source target =
     \<lparr> numHabitats = habitats, habitatLocations = replicate habitats (0, 0),
       corridorCapacity = [], sourceHabitat = source, targetHabitat = target \<rparr>"

definition setHabitatLocation :: "WildlifeCorridorNetwork \<Rightarrow> nat \<Rightarrow> real \<Rightarrow> real
    \<Rightarrow> WildlifeCorridorNetwork option" where
  "setHabitatLocation net habitat x y =
     (if habitat < length (habitatLocations net)
      then Some (net\<lparr> habitatLocations := (habitatLocations net)[habitat := (x, y)] \<rparr>)
      else None)"

text \<open>The order of \<open>std::map<pair<int,int>, int>\<close> and \<open>operator[]\<close> followed by assignment.\<close>

definition key_less :: "nat \<times> nat \<Rightarrow> nat \<times> nat \<Rightarrow> bool" where
  "key_less a b \<longleftrightarrow> fst a < fst b \<or> (fst a = fst b \<and> snd a < snd b)"

fun map_put :: "nat \<times> nat \<Rightarrow> int \<Rightarrow> corridor list \<Rightarrow> corridor list" where
  "map_put k x [] = [(k, x)]"
| "map_put k x (e # es) =
     (if fst e = k then (k, x) # es
      else if key_less k (fst e) then (k, x) # e # es
      else e # map_put k x es)"

text \<open>
  \<open>calculateCorridorCapacity\<close>. The computed distance (\<open>distance(h1, h2)\<close>, a double)
  and the cast \<open>(int)(100 * normalized * normalized)\<close> are floating-point computations;
  they enter as the parameters \<open>distance\<close> and \<open>quant\<close>, so that what is proved of the
  builder holds whatever they compute. What the source computes in binary64 is
  \<open>distance64\<close> and \<open>quant64\<close> (defined with the arithmetic of double below), and the
  capacity rule of the source is \<open>calculateCorridorCapacity distance64 quant64\<close>.
\<close>

definition calculateCorridorCapacity :: "(location \<Rightarrow> location \<Rightarrow> real) \<Rightarrow> (real \<Rightarrow> real \<Rightarrow> int)
    \<Rightarrow> WildlifeCorridorNetwork \<Rightarrow> nat \<Rightarrow> nat \<Rightarrow> real \<Rightarrow> int" where
  "calculateCorridorCapacity distance quant net h1 h2 maxDist =
     (let d = distance (habitatLocations net ! h1) (habitatLocations net ! h2)
      in if d > maxDist then 0 else max 1 (quant d maxDist))"

text \<open>
  \<open>buildCorridorNetwork\<close>: the body of the loops (\<open>build_step\<close>), the loop over \<open>j\<close>
  and the loop over \<open>i\<close>.
\<close>

definition build_step :: "(location \<Rightarrow> location \<Rightarrow> real) \<Rightarrow> (real \<Rightarrow> real \<Rightarrow> int) \<Rightarrow> real
    \<Rightarrow> nat \<times> nat \<Rightarrow> WildlifeCorridorNetwork \<Rightarrow> WildlifeCorridorNetwork" where
  "build_step distance quant maxDist p net =
     (let cap = calculateCorridorCapacity distance quant net (fst p) (snd p) maxDist
      in if cap > 0 then net\<lparr> corridorCapacity := map_put p cap (corridorCapacity net) \<rparr>
         else net)"

fun build_inner :: "(location \<Rightarrow> location \<Rightarrow> real) \<Rightarrow> (real \<Rightarrow> real \<Rightarrow> int) \<Rightarrow> real \<Rightarrow> nat
    \<Rightarrow> nat list \<Rightarrow> WildlifeCorridorNetwork \<Rightarrow> WildlifeCorridorNetwork" where
  "build_inner distance quant maxDist i [] net = net"
| "build_inner distance quant maxDist i (j # js) net =
     build_inner distance quant maxDist i js (build_step distance quant maxDist (i, j) net)"

fun build_outer :: "(location \<Rightarrow> location \<Rightarrow> real) \<Rightarrow> (real \<Rightarrow> real \<Rightarrow> int) \<Rightarrow> real
    \<Rightarrow> nat list \<Rightarrow> WildlifeCorridorNetwork \<Rightarrow> WildlifeCorridorNetwork" where
  "build_outer distance quant maxDist [] net = net"
| "build_outer distance quant maxDist (i # is) net =
     build_outer distance quant maxDist is
       (build_inner distance quant maxDist i [Suc i ..< numHabitats net] net)"

definition buildCorridorNetwork :: "(location \<Rightarrow> location \<Rightarrow> real) \<Rightarrow> (real \<Rightarrow> real \<Rightarrow> int)
    \<Rightarrow> WildlifeCorridorNetwork \<Rightarrow> real \<Rightarrow> WildlifeCorridorNetwork" where
  "buildCorridorNetwork distance quant net maxCorridorDistance =
     build_outer distance quant maxCorridorDistance [0 ..< numHabitats net] net"

text \<open>\<open>solve\<close>: the loop adding every corridor in both directions, then the engine.\<close>

fun add_corridors :: "MaxFlow \<Rightarrow> corridor list \<Rightarrow> MaxFlow option" where
  "add_corridors mf [] = Some mf"
| "add_corridors mf (e # es) =
     (case addEdge mf (fst (fst e)) (snd (fst e)) (snd e) of
        None \<Rightarrow> None
      | Some mf1 \<Rightarrow>
          (case addEdge mf1 (snd (fst e)) (fst (fst e)) (snd e) of
             None \<Rightarrow> None
           | Some mf2 \<Rightarrow> add_corridors mf2 es))"

definition solve :: "WildlifeCorridorNetwork
    \<Rightarrow> ((int \<times> corridor list) \<times> WildlifeCorridorNetwork) option" where
  "solve net =
     (case add_corridors (MaxFlow_init (numHabitats net)) (corridorCapacity net) of
        None \<Rightarrow> None
      | Some mf \<Rightarrow>
          (case maxflow mf (sourceHabitat net) (targetHabitat net) of
             None \<Rightarrow> None
           | Some r \<Rightarrow>
               (case getUsedCorridors (snd r) (numHabitats net) of
                  None \<Rightarrow> None
                | Some usedCorridors \<Rightarrow> Some ((fst r, usedCorridors), net))))"


section \<open>Well-formed states\<close>

text \<open>The matrix is square of size \<open>k\<close>.\<close>

definition wf_matrix :: "nat \<Rightarrow> int list list \<Rightarrow> bool" where
  "wf_matrix k c \<longleftrightarrow> length c = k \<and> (\<forall>row \<in> set c. length row = k)"

text \<open>
  The shape the constructor gives an engine and every operation keeps: a square matrix and
  one adjacency list per node, holding node ids.
\<close>

definition wf_mf :: "MaxFlow \<Rightarrow> bool" where
  "wf_mf mf \<longleftrightarrow> wf_matrix (mf_n mf) (capacity mf) \<and> length (adj mf) = mf_n mf
     \<and> (\<forall>l \<in> set (adj mf). \<forall>v \<in> set l. v < mf_n mf)"

text \<open>The calls of a sequence on the unordered pair \<open>{u, v}\<close>.\<close>

definition on_pair :: "nat \<Rightarrow> nat \<Rightarrow> nat \<times> nat \<times> int \<Rightarrow> bool" where
  "on_pair u v e \<longleftrightarrow> (fst e = u \<and> fst (snd e) = v) \<or> (fst e = v \<and> fst (snd e) = u)"

definition valid_calls :: "nat \<Rightarrow> (nat \<times> nat \<times> int) list \<Rightarrow> bool" where
  "valid_calls k es \<longleftrightarrow> (\<forall>e \<in> set es. fst e < k \<and> fst (snd e) < k \<and> 0 \<le> snd (snd e))"

text \<open>The capacity that the calls of a sequence put on the ordered pair \<open>(a, b)\<close>.\<close>

definition call_sum :: "(nat \<times> nat \<times> int) list \<Rightarrow> nat \<Rightarrow> nat \<Rightarrow> int" where
  "call_sum es a b =
     sum_list (map (\<lambda>e. snd (snd e)) (filter (\<lambda>e. fst e = a \<and> fst (snd e) = b) es))"

text \<open>The pairs in the order in which the two loops of \<open>buildCorridorNetwork\<close> visit them.\<close>

definition pair_order :: "nat \<Rightarrow> nat list \<Rightarrow> (nat \<times> nat) list" where
  "pair_order k is = concat (map (\<lambda>i. map (Pair i) [Suc i ..< k]) is)"

section \<open>What the search establishes\<close>

text \<open>
  The parent vector as a tree rooted at the source: the source is its own parent, and
  every other discovered node \<open>v\<close> has a discovered parent \<open>u\<close> with positive residual
  capacity on \<open>u \<rightarrow> v\<close>; a rank that decreases towards the source excludes cycles.
\<close>

definition ranked :: "int list list \<Rightarrow> nat \<Rightarrow> nat \<Rightarrow> nat option list \<Rightarrow> (nat \<Rightarrow> nat) \<Rightarrow> bool" where
  "ranked c source k parent d \<longleftrightarrow>
     (\<forall>v < k. \<forall>u. v \<noteq> source \<longrightarrow> parent ! v = Some u \<longrightarrow>
        u < k \<and> d u < d v \<and> 0 < c ! u ! v \<and> parent ! u \<noteq> None)"

definition parent_tree :: "int list list \<Rightarrow> nat \<Rightarrow> nat \<Rightarrow> nat option list \<Rightarrow> bool" where
  "parent_tree c source k parent \<longleftrightarrow>
     length parent = k \<and> parent ! source = Some source \<and> (\<exists>d. ranked c source k parent d)"

text \<open>Every neighbour of \<open>x\<close> over an arc with positive residual capacity is discovered.\<close>

definition closed_node :: "MaxFlow \<Rightarrow> nat option list \<Rightarrow> nat \<Rightarrow> bool" where
  "closed_node mf parent x \<longleftrightarrow>
     (\<forall>v \<in> set (adj mf ! x). parent ! v \<noteq> None \<or> capacity mf ! x ! v \<le> 0)"

text \<open>The invariant of the \<open>while\<close> loop of \<open>bfs\<close>, at the loop head.\<close>

definition bfs_inv :: "MaxFlow \<Rightarrow> nat \<Rightarrow> nat \<Rightarrow> nat option list \<Rightarrow> (nat \<times> int) list \<Rightarrow> bool" where
  "bfs_inv mf source sink parent q \<longleftrightarrow>
     parent_tree (capacity mf) source (mf_n mf) parent \<and> parent ! sink = None \<and>
     (\<forall>x \<in> set q. fst x < mf_n mf \<and> parent ! fst x \<noteq> None) \<and>
     (\<forall>x < mf_n mf. parent ! x \<noteq> None \<longrightarrow> x \<notin> fst ` set q \<longrightarrow> closed_node mf parent x)"

text \<open>
  The invariant of the \<open>for\<close> loop over \<open>adj[u]\<close>, where \<open>seen\<close> is the part of the
  list already visited.
\<close>

definition scan_inv :: "MaxFlow \<Rightarrow> nat \<Rightarrow> nat \<Rightarrow> nat \<Rightarrow> nat list \<Rightarrow> nat option list
    \<Rightarrow> (nat \<times> int) list \<Rightarrow> bool" where
  "scan_inv mf source sink u seen parent q \<longleftrightarrow>
     parent_tree (capacity mf) source (mf_n mf) parent \<and> parent ! sink = None \<and>
     u < mf_n mf \<and> parent ! u \<noteq> None \<and>
     (\<forall>x \<in> set q. fst x < mf_n mf \<and> parent ! fst x \<noteq> None) \<and>
     (\<forall>x < mf_n mf. x \<noteq> u \<longrightarrow> parent ! x \<noteq> None \<longrightarrow> x \<notin> fst ` set q
        \<longrightarrow> closed_node mf parent x) \<and>
     (\<forall>v \<in> set seen. parent ! v \<noteq> None \<or> capacity mf ! u ! v \<le> 0)"

section \<open>The states that maxflow goes through\<close>

definition nonneg_matrix :: "nat \<Rightarrow> int list list \<Rightarrow> bool" where
  "nonneg_matrix k c \<longleftrightarrow> (\<forall>u < k. \<forall>v < k. 0 \<le> c ! u ! v)"

text \<open>
  One pass of the second \<open>for\<close> loop of \<open>maxflow\<close>, from the node \<open>v\<close> and matrix before
  the pass to the node \<open>parent[v]\<close> and matrix after it.
\<close>

definition walk_step :: "nat option list \<Rightarrow> nat \<Rightarrow> int \<Rightarrow> nat \<times> int list list
    \<Rightarrow> nat \<times> int list list \<Rightarrow> bool" where
  "walk_step parent source path_flow a b \<longleftrightarrow>
     fst a \<noteq> source \<and> fst a < length parent \<and> parent ! fst a = Some (fst b) \<and>
     in_range (snd a) (fst b) (fst a) \<and> in_range (snd a) (fst a) (fst b) \<and>
     snd b = push_arc (snd a) (fst b) (fst a) path_flow"

text \<open>
  The pairs (flow, matrix) at the head of the \<open>while\<close> loop of \<open>maxflow\<close>, started on the
  engine \<open>mf\<close>: the initial one, and the one after each pass of the loop body.
\<close>

inductive loop_head :: "MaxFlow \<Rightarrow> nat \<Rightarrow> nat \<Rightarrow> int \<times> int list list \<Rightarrow> bool"
  for mf :: MaxFlow and source :: nat and sink :: nat where
  start: "loop_head mf source sink (0, capacity mf)"
| iter: "loop_head mf source sink (fl, c) \<Longrightarrow>
         bfs (mf\<lparr> capacity := c \<rparr>) source sink = Some (True, parent) \<Longrightarrow>
         path_min parent c source sink INT_MAX = Some pf \<Longrightarrow>
         augment parent source pf sink c = Some c' \<Longrightarrow>
         loop_head mf source sink (fl + pf, c')"

text \<open>
  Every matrix that exists at some point of \<open>maxflow\<close>: at the head of the \<open>while\<close> loop,
  and after each single arc update inside the second \<open>for\<close> loop.
\<close>

inductive during :: "MaxFlow \<Rightarrow> nat \<Rightarrow> nat \<Rightarrow> int list list \<Rightarrow> bool"
  for mf :: MaxFlow and source :: nat and sink :: nat where
  head: "loop_head mf source sink (fl, c) \<Longrightarrow> during mf source sink c"
| walk: "loop_head mf source sink (fl, c) \<Longrightarrow>
         bfs (mf\<lparr> capacity := c \<rparr>) source sink = Some (True, parent) \<Longrightarrow>
         path_min parent c source sink INT_MAX = Some pf \<Longrightarrow>
         (walk_step parent source pf)\<^sup>*\<^sup>* (sink, c) (v, c') \<Longrightarrow>
         during mf source sink c'"

text \<open>
  The residual capacity that crosses from \<open>S\<close> to its complement, and the membership
  of a node in \<open>S\<close> as a number.
\<close>

definition cut_sum :: "nat \<Rightarrow> nat set \<Rightarrow> int list list \<Rightarrow> int" where
  "cut_sum k S c = (\<Sum>u | u < k \<and> u \<in> S. \<Sum>v | v < k \<and> v \<notin> S. c ! u ! v)"

definition ind :: "nat set \<Rightarrow> nat \<Rightarrow> int" where
  "ind S x = (if x \<in> S then 1 else 0)"

text \<open>One step of following the parent vector, as both \<open>for\<close> loops of \<open>maxflow\<close> do.\<close>

definition parent_step :: "nat option list \<Rightarrow> nat \<Rightarrow> nat \<Rightarrow> nat \<Rightarrow> bool" where
  "parent_step parent source v u \<longleftrightarrow> v \<noteq> source \<and> parent ! v = Some u"

text \<open>
  What holds of the matrix \<open>c'\<close> when the second \<open>for\<close> loop, started at \<open>v0\<close> on the
  matrix \<open>c0\<close>, has arrived at \<open>v\<close>: the cells with an endpoint nearer to the source
  than \<open>v\<close> are untouched, no cell is negative, the two directions of every pair still
  sum up to the same, and what crosses a cut has changed by the flow pushed.
\<close>

definition walk_inv :: "int list list \<Rightarrow> nat \<Rightarrow> nat \<Rightarrow> nat option list \<Rightarrow> (nat \<Rightarrow> nat) \<Rightarrow> int
    \<Rightarrow> nat \<Rightarrow> nat \<Rightarrow> int list list \<Rightarrow> bool" where
  "walk_inv c0 source k parent d f v0 v c' \<longleftrightarrow>
     wf_matrix k c' \<and> v < k \<and> parent ! v \<noteq> None \<and>
     (parent_step parent source)\<^sup>*\<^sup>* v0 v \<and>
     nonneg_matrix k c' \<and>
     (\<forall>a < k. \<forall>b < k. d a < d v \<or> d b < d v \<longrightarrow> c' ! a ! b = c0 ! a ! b) \<and>
     (\<forall>a < k. \<forall>b < k. c' ! a ! b + c' ! b ! a = c0 ! a ! b + c0 ! b ! a) \<and>
     (\<forall>S. cut_sum k S c' = cut_sum k S c0 + f * (ind S v0 - ind S v))"

text \<open>
  The invariant of the \<open>while\<close> loop of \<open>maxflow\<close>, started on the engine \<open>mf\<close>, for the
  flow \<open>fl\<close> accumulated so far and the current matrix \<open>c\<close>.
\<close>

definition flow_inv :: "MaxFlow \<Rightarrow> nat \<Rightarrow> nat \<Rightarrow> int \<Rightarrow> int list list \<Rightarrow> bool" where
  "flow_inv mf source sink fl c \<longleftrightarrow>
     wf_matrix (mf_n mf) c \<and> nonneg_matrix (mf_n mf) c \<and> 0 \<le> fl \<and>
     (\<forall>a < mf_n mf. \<forall>b < mf_n mf.
        c ! a ! b + c ! b ! a = capacity mf ! a ! b + capacity mf ! b ! a) \<and>
     (\<forall>S. source \<in> S \<longrightarrow> sink \<notin> S \<longrightarrow>
        fl + cut_sum (mf_n mf) S c = cut_sum (mf_n mf) S (capacity mf))"

section \<open>The corridor map as the reduction uses it\<close>

text \<open>
  What \<open>buildCorridorNetwork\<close> leaves in the map: one entry per key, keys \<open>(i, j)\<close> with
  \<open>i < j\<close> among the habitats, positive capacities.
\<close>

definition valid_corridors :: "nat \<Rightarrow> corridor list \<Rightarrow> bool" where
  "valid_corridors k cs \<longleftrightarrow>
     distinct (map fst cs) \<and>
     (\<forall>e \<in> set cs. fst (fst e) < snd (fst e) \<and> snd (fst e) < k \<and> 0 < snd e)"

text \<open>The \<open>addEdge\<close> calls that the loop of \<open>solve\<close> makes, in order.\<close>

definition corridor_calls :: "corridor list \<Rightarrow> (nat \<times> nat \<times> int) list" where
  "corridor_calls cs =
     concat (map (\<lambda>e. [(fst (fst e), snd (fst e), snd e), (snd (fst e), fst (fst e), snd e)]) cs)"

section \<open>Comparing two networks\<close>

text \<open>
  Whenever a pair of nodes has capacity in one direction or the other, each is in the
  adjacency list of the other: \<open>addEdge\<close> establishes this, and \<open>bfs\<close>, which only follows
  adjacency lists, relies on it.
\<close>

definition adj_covers :: "MaxFlow \<Rightarrow> bool" where
  "adj_covers mf \<longleftrightarrow>
     (\<forall>u < mf_n mf. \<forall>v < mf_n mf.
        capacity mf ! u ! v \<noteq> 0 \<or> capacity mf ! v ! u \<noteq> 0 \<longrightarrow> v \<in> set (adj mf ! u))"

text \<open>
  The same \<open>addEdge\<close> call with a capacity that is at least as large, and two sequences of
  calls related call by call: the same edges, capacities raised.
\<close>

definition call_le :: "nat \<times> nat \<times> int \<Rightarrow> nat \<times> nat \<times> int \<Rightarrow> bool" where
  "call_le e e' \<longleftrightarrow> fst e = fst e' \<and> fst (snd e) = fst (snd e') \<and> snd (snd e) \<le> snd (snd e')"

definition raise_call :: "(nat \<times> nat \<times> int) list \<Rightarrow> nat \<Rightarrow> int \<Rightarrow> (nat \<times> nat \<times> int) list" where
  "raise_call es i x = es[i := (fst (es ! i), fst (snd (es ! i)), x)]"

section \<open>Capacities that fit the C++ int\<close>

text \<open>
  The conditions on a sequence of \<open>addEdge\<close> calls under which no addition of the engine
  leaves the range of \<open>int\<close>: what the calls add to one cell is at most \<open>INT_MAX\<close>
  (\<open>cells_fit\<close>, for \<open>addEdge\<close> itself); the same for the two cells of a pair together
  (\<open>pairs_fit\<close>, for \<open>capacity[v][u] += path_flow\<close>); and the capacity that leaves the
  source is at most \<open>INT_MAX\<close> (\<open>source_fits\<close>, for \<open>flow += path_flow\<close>).
\<close>

text \<open>
  When the exact result \<open>x\<close> of an addition does not fit, C++ defines no value; a 32-bit
  two's complement \<open>int\<close> then holds \<open>int32 x\<close>, which is \<open>x\<close> itself when \<open>x\<close> fits.
\<close>

definition int32 :: "int \<Rightarrow> int" where
  "int32 x = (x + 2147483648) mod 4294967296 - 2147483648"

definition cells_fit :: "nat \<Rightarrow> (nat \<times> nat \<times> int) list \<Rightarrow> bool" where
  "cells_fit k es \<longleftrightarrow>
     list_all (\<lambda>a. list_all (\<lambda>b. call_sum es a b \<le> INT_MAX) [0 ..< k]) [0 ..< k]"

definition pairs_fit :: "nat \<Rightarrow> (nat \<times> nat \<times> int) list \<Rightarrow> bool" where
  "pairs_fit k es \<longleftrightarrow>
     list_all (\<lambda>a. list_all (\<lambda>b.
        call_sum es a b + (if a = b then 0 else call_sum es b a) \<le> INT_MAX) [0 ..< k]) [0 ..< k]"

definition source_fits :: "nat \<Rightarrow> (nat \<times> nat \<times> int) list \<Rightarrow> nat \<Rightarrow> bool" where
  "source_fits k es source \<longleftrightarrow>
     sum_list (map (call_sum es source) (filter (\<lambda>v. v \<noteq> source) [0 ..< k])) \<le> INT_MAX"


section \<open>The arithmetic of double\<close>







section \<open>Basic facts about the matrix and addEdge\<close>

lemma wf_matrix_in_range: "wf_matrix k c \<Longrightarrow> u < k \<Longrightarrow> v < k \<Longrightarrow> in_range c u v"
  by (simp add: wf_matrix_def in_range_def)

lemma wf_matrix_row: "wf_matrix k c \<Longrightarrow> u < k \<Longrightarrow> length (c ! u) = k"
  by (simp add: wf_matrix_def)

lemma wf_matrix_length: "wf_matrix k c \<Longrightarrow> length c = k"
  by (simp add: wf_matrix_def)

lemma wf_matrix_cell_add: "wf_matrix k c \<Longrightarrow> wf_matrix k (cell_add c u v x)"
proof -
  assume w: "wf_matrix k c"
  show ?thesis
  proof (cases "u < k")
    case True
    have "set (c[u := (c ! u)[v := c ! u ! v + x]]) \<subseteq> insert ((c ! u)[v := c ! u ! v + x]) (set c)"
      by (rule set_update_subset_insert)
    with w True show ?thesis
      by (auto simp: wf_matrix_def cell_add_def)
  next
    case False
    with w show ?thesis by (simp add: wf_matrix_def cell_add_def list_update_beyond)
  qed
qed

lemma cell_add_nth:
  "wf_matrix k c \<Longrightarrow> u < k \<Longrightarrow> v < k \<Longrightarrow> a < k \<Longrightarrow> b < k \<Longrightarrow>
   cell_add c u v x ! a ! b = (if a = u \<and> b = v then c ! a ! b + x else c ! a ! b)"
  by (auto simp: wf_matrix_def cell_add_def nth_list_update)

lemma wf_matrix_init: "wf_matrix k (replicate k (replicate k 0))"
  by (simp add: wf_matrix_def)

lemma wf_mf_init: "wf_mf (MaxFlow_init k)"
  by (simp add: wf_mf_def MaxFlow_init_def wf_matrix_def)

lemma push_both_length: "length (push_both a u v) = length a"
  by (simp add: push_both_def Let_def)

lemma ids_update:
  assumes "\<forall>l \<in> set a. \<forall>w \<in> set l. w < k" "\<forall>w \<in> set l'. w < (k::nat)"
  shows "\<forall>l \<in> set (a[i := l']). \<forall>w \<in> set l. w < k"
  using assms set_update_subset_insert[of a i l'] by blast

lemma push_both_ids:
  assumes "\<forall>l \<in> set a. \<forall>w \<in> set l. w < k" "u < k" "v < k" "u < length a" "v < length a"
  shows "\<forall>l \<in> set (push_both a u v). \<forall>w \<in> set l. w < k"
proof -
  have au: "\<forall>w \<in> set (a ! u @ [v]). w < k"
    using assms by auto
  have 1: "\<forall>l \<in> set (a[u := a ! u @ [v]]). \<forall>w \<in> set l. w < k"
    by (rule ids_update[OF assms(1) au])
  have "a[u := a ! u @ [v]] ! v \<in> set (a[u := a ! u @ [v]])"
    using assms(5) by simp
  with 1 have av: "\<forall>w \<in> set (a[u := a ! u @ [v]] ! v @ [u]). w < k"
    using assms(2) by auto
  have "\<forall>l \<in> set ((a[u := a ! u @ [v]])[v := a[u := a ! u @ [v]] ! v @ [u]]). \<forall>w \<in> set l. w < k"
    by (rule ids_update[OF 1 av])
  then show ?thesis by (simp add: push_both_def Let_def)
qed

lemma wf_mf_in_range: "wf_mf mf \<Longrightarrow> u < mf_n mf \<Longrightarrow> v < mf_n mf \<Longrightarrow> in_range (capacity mf) u v"
  unfolding wf_mf_def by (blast intro: wf_matrix_in_range)

lemma addEdge_Some:
  assumes "wf_mf mf" "u < mf_n mf" "v < mf_n mf"
  shows "addEdge mf u v cap = Some (mf\<lparr> adj := (if capacity mf ! u ! v = 0 \<and> capacity mf ! v ! u = 0
            then push_both (adj mf) u v else adj mf),
          capacity := cell_add (capacity mf) u v cap \<rparr>)"
proof -
  have "in_range (capacity mf) u v" "in_range (capacity mf) v u"
    using assms by (simp_all add: wf_mf_in_range)
  moreover have "u < length (adj mf)" "v < length (adj mf)"
    using assms by (simp_all add: wf_mf_def)
  ultimately show ?thesis by (simp add: addEdge_def)
qed

lemma addEdge_wf:
  assumes "wf_mf mf" "u < mf_n mf" "v < mf_n mf" "addEdge mf u v cap = Some mf'"
  shows "wf_mf mf' \<and> mf_n mf' = mf_n mf"
proof -
  have ids: "\<forall>l \<in> set (push_both (adj mf) u v). \<forall>w \<in> set l. w < mf_n mf"
    using assms(1-3) by (intro push_both_ids) (auto simp: wf_mf_def)
  from assms(4) have eq: "mf' = mf\<lparr> adj := (if capacity mf ! u ! v = 0 \<and> capacity mf ! v ! u = 0
            then push_both (adj mf) u v else adj mf),
          capacity := cell_add (capacity mf) u v cap \<rparr>"
    using addEdge_Some[OF assms(1-3), of cap] by simp
  show ?thesis
    using assms(1) ids unfolding eq wf_mf_def
    by (simp add: wf_matrix_cell_add push_both_length)
qed

section \<open>Sequences of addEdge calls\<close>

lemma add_edges_append:
  "add_edges mf (xs @ ys) = (case add_edges mf xs of None \<Rightarrow> None | Some mf' \<Rightarrow> add_edges mf' ys)"
  by (induction xs arbitrary: mf) (auto split: option.splits)

lemma valid_calls_Cons:
  "valid_calls k (e # es) \<longleftrightarrow> fst e < k \<and> fst (snd e) < k \<and> 0 \<le> snd (snd e) \<and> valid_calls k es"
  by (auto simp: valid_calls_def)

lemma call_sum_Cons:
  "call_sum (e # es) a b = (if fst e = a \<and> fst (snd e) = b then snd (snd e) else 0) + call_sum es a b"
  by (simp add: call_sum_def)

lemma add_edges_result:
  assumes "wf_mf mf" "valid_calls (mf_n mf) es"
  shows "\<exists>mf'. add_edges mf es = Some mf' \<and> wf_mf mf' \<and> mf_n mf' = mf_n mf \<and>
           (\<forall>a < mf_n mf. \<forall>b < mf_n mf. capacity mf' ! a ! b = capacity mf ! a ! b + call_sum es a b)"
  using assms
proof (induction es arbitrary: mf)
  case Nil
  then show ?case by (simp add: call_sum_def)
next
  case (Cons e es)
  let ?u = "fst e" and ?v = "fst (snd e)" and ?x = "snd (snd e)"
  from Cons.prems have uv: "?u < mf_n mf" "?v < mf_n mf" and rest: "valid_calls (mf_n mf) es"
    by (simp_all add: valid_calls_Cons)
  obtain mf1 where a1: "addEdge mf ?u ?v ?x = Some mf1"
    using addEdge_Some[OF Cons.prems(1) uv] by blast
  have w1: "wf_mf mf1" and n1: "mf_n mf1 = mf_n mf"
    using addEdge_wf[OF Cons.prems(1) uv a1] by simp_all
  have c1: "capacity mf1 = cell_add (capacity mf) ?u ?v ?x"
    using a1 addEdge_Some[OF Cons.prems(1) uv, of ?x] by auto
  from Cons.IH[OF w1] rest n1 obtain mf' where
    r: "add_edges mf1 es = Some mf'" "wf_mf mf'" "mf_n mf' = mf_n mf" and
    c: "\<forall>a < mf_n mf. \<forall>b < mf_n mf. capacity mf' ! a ! b = capacity mf1 ! a ! b + call_sum es a b"
    by auto
  have wm: "wf_matrix (mf_n mf) (capacity mf)"
    using Cons.prems(1) by (simp add: wf_mf_def)
  have "capacity mf' ! a ! b = capacity mf ! a ! b + call_sum (e # es) a b"
    if "a < mf_n mf" "b < mf_n mf" for a b
    using c that by (auto simp: c1 cell_add_nth[OF wm uv that] call_sum_Cons)
  with r a1 show ?case by simp
qed

lemma init_cell: "a < k \<Longrightarrow> b < k \<Longrightarrow> capacity (MaxFlow_init k) ! a ! b = 0"
  by (simp add: MaxFlow_init_def)

lemma call_sum_zero_iff:
  assumes "valid_calls k es"
  shows "call_sum es a b = 0 \<longleftrightarrow> (\<forall>e \<in> set es. fst e = a \<and> fst (snd e) = b \<longrightarrow> snd (snd e) = 0)"
proof -
  have "\<forall>x \<in> set (map (\<lambda>e. snd (snd e)) (filter (\<lambda>e. fst e = a \<and> fst (snd e) = b) es)). 0 \<le> x"
    using assms by (auto simp: valid_calls_def)
  then show ?thesis
    unfolding call_sum_def by (subst sum_list_nonneg_eq_0_iff) auto
qed

lemma call_sum_nonneg: "valid_calls k es \<Longrightarrow> 0 \<le> call_sum es a b"
  unfolding call_sum_def valid_calls_def by (intro sum_list_nonneg) auto

lemma add_edges_state:
  assumes "valid_calls k es"
  shows "\<exists>mf. add_edges (MaxFlow_init k) es = Some mf \<and> wf_mf mf \<and> mf_n mf = k \<and>
     nonneg_matrix k (capacity mf) \<and>
     (\<forall>a < k. \<forall>b < k. capacity mf ! a ! b = call_sum es a b)"
proof -
  have k: "mf_n (MaxFlow_init k) = k" by (simp add: MaxFlow_init_def)
  from add_edges_result[OF wf_mf_init, of k es] assms k obtain mf where
    r: "add_edges (MaxFlow_init k) es = Some mf" "wf_mf mf" "mf_n mf = k" and
    c: "\<forall>a < k. \<forall>b < k. capacity mf ! a ! b = capacity (MaxFlow_init k) ! a ! b + call_sum es a b"
    by auto
  from c have c': "\<forall>a < k. \<forall>b < k. capacity mf ! a ! b = call_sum es a b"
    by (simp add: init_cell)
  then have "nonneg_matrix k (capacity mf)"
    using call_sum_nonneg[OF assms] by (simp add: nonneg_matrix_def)
  with r c' show ?thesis by blast
qed

lemma call_sum_append: "call_sum (xs @ ys) a b = call_sum xs a b + call_sum ys a b"
  by (simp add: call_sum_def)

lemma cells_fit_iff: "cells_fit k es \<longleftrightarrow> (\<forall>a < k. \<forall>b < k. call_sum es a b \<le> INT_MAX)"
  by (auto simp: cells_fit_def list_all_iff)

lemma call_sum_snoc_le:
  assumes "valid_calls k (pre @ [e])"
  shows "0 \<le> call_sum pre a b \<and> call_sum pre a b \<le> call_sum (pre @ [e]) a b"
proof -
  from assms have v: "valid_calls k pre" and e: "0 \<le> snd (snd e)"
    by (simp_all add: valid_calls_def)
  have "0 \<le> call_sum [e] a b" using e by (simp add: call_sum_def)
  with call_sum_nonneg[OF v, of a b] show ?thesis
    by (simp add: call_sum_append)
qed

text \<open>
  C4, as amended. On a fresh engine, take any sequence of calls with valid node ids and
  capacities that are not negative, such that what the calls add to any one cell is at
  most \<open>INT_MAX\<close> (no addition overflows). Then the last call \<open>addEdge(u, v, cap)\<close> is
  defined; it pushes \<open>v\<close> on \<open>u\<close>'s adjacency list and \<open>u\<close> on \<open>v\<close>'s exactly when no
  earlier call on the pair \<open>{u, v}\<close> had a positive capacity, it adds \<open>cap\<close> to
  \<open>capacity[u][v]\<close>, it leaves \<open>capacity[v][u]\<close> as it was when \<open>u\<close> and \<open>v\<close> differ, and
  every entry of the matrix before and after the call lies between 0 and \<open>INT_MAX\<close>.
\<close>

theorem addEdge_sequence:
  assumes "valid_calls k (pre @ [(u, v, cap)])" and "cells_fit k (pre @ [(u, v, cap)])"
  shows "\<exists>mf mf'. add_edges (MaxFlow_init k) pre = Some mf \<and> addEdge mf u v cap = Some mf' \<and>
           adj mf' = (if \<forall>e \<in> set pre. on_pair u v e \<longrightarrow> snd (snd e) = 0
                      then push_both (adj mf) u v else adj mf) \<and>
           capacity mf' ! u ! v = capacity mf ! u ! v + cap \<and>
           (u \<noteq> v \<longrightarrow> capacity mf' ! v ! u = capacity mf ! v ! u) \<and>
           (\<forall>a < k. \<forall>b < k. 0 \<le> capacity mf ! a ! b \<and> capacity mf ! a ! b \<le> INT_MAX \<and>
                0 \<le> capacity mf' ! a ! b \<and> capacity mf' ! a ! b \<le> INT_MAX)"
proof -
  let ?es = "pre @ [(u, v, cap)]"
  from assms(1) have vp: "valid_calls k pre" and ul: "u < k" and vl: "v < k"
    by (simp_all add: valid_calls_def)
  from add_edges_state[OF vp] obtain mf where
    r: "add_edges (MaxFlow_init k) pre = Some mf" "wf_mf mf" "mf_n mf = k"
    and c: "\<forall>a < k. \<forall>b < k. capacity mf ! a ! b = call_sum pre a b"
    by blast
  from add_edges_state[OF assms(1)] obtain mf' where
    r': "add_edges (MaxFlow_init k) ?es = Some mf'"
    and c': "\<forall>a < k. \<forall>b < k. capacity mf' ! a ! b = call_sum ?es a b"
    by blast
  from r' r(1) have a: "addEdge mf u v cap = Some mf'"
    by (simp add: add_edges_append split: option.splits)
  have uv: "u < mf_n mf" "v < mf_n mf" using ul vl r by simp_all
  have cuv: "capacity mf ! u ! v = call_sum pre u v" and cvu: "capacity mf ! v ! u = call_sum pre v u"
    using c ul vl by simp_all
  have zero: "(capacity mf ! u ! v = 0 \<and> capacity mf ! v ! u = 0) \<longleftrightarrow>
      (\<forall>e \<in> set pre. on_pair u v e \<longrightarrow> snd (snd e) = 0)"
    unfolding cuv cvu call_sum_zero_iff[OF vp] on_pair_def by blast
  have wm: "wf_matrix k (capacity mf)" using r by (simp add: wf_mf_def)
  from a addEdge_Some[OF r(2) uv, of cap] have
    adj': "adj mf' = (if capacity mf ! u ! v = 0 \<and> capacity mf ! v ! u = 0
            then push_both (adj mf) u v else adj mf)"
    and cap': "capacity mf' = cell_add (capacity mf) u v cap"
    by auto
  have 1: "adj mf' = (if \<forall>e \<in> set pre. on_pair u v e \<longrightarrow> snd (snd e) = 0
                      then push_both (adj mf) u v else adj mf)"
    using zero adj' by simp
  have 2: "capacity mf' ! u ! v = capacity mf ! u ! v + cap"
    using cell_add_nth[OF wm ul vl ul vl] by (simp add: cap')
  have 3: "u \<noteq> v \<longrightarrow> capacity mf' ! v ! u = capacity mf ! v ! u"
    using cell_add_nth[OF wm ul vl vl ul] by (simp add: cap')
  have 4: "0 \<le> capacity mf ! a ! b \<and> capacity mf ! a ! b \<le> INT_MAX \<and>
           0 \<le> capacity mf' ! a ! b \<and> capacity mf' ! a ! b \<le> INT_MAX"
    if ab: "a < k" "b < k" for a b
  proof -
    from assms(2) ab have "call_sum ?es a b \<le> INT_MAX"
      by (simp add: cells_fit_iff)
    moreover note call_sum_snoc_le[OF assms(1), of a b]
    moreover have "capacity mf ! a ! b = call_sum pre a b" "capacity mf' ! a ! b = call_sum ?es a b"
      using c c' ab by simp_all
    ultimately show ?thesis by linarith
  qed
  from 4 have 5: "\<forall>a < k. \<forall>b < k. 0 \<le> capacity mf ! a ! b \<and> capacity mf ! a ! b \<le> INT_MAX \<and>
                0 \<le> capacity mf' ! a ! b \<and> capacity mf' ! a ! b \<le> INT_MAX"
    by blast
  show ?thesis
    by (rule exI[of _ mf], rule exI[of _ mf']) (intro conjI r(1) a 1 2 3 5)
qed

theorem addEdge_sequence_witness:
  "valid_calls 2 ([(0, 1, 4)] @ [(1, 0, 3)]) \<and> cells_fit 2 ([(0, 1, 4)] @ [(1, 0, 3)]) \<and>
   (\<exists>mf mf'. add_edges (MaxFlow_init 2) [(0, 1, 4)] = Some mf \<and> addEdge mf 1 0 3 = Some mf' \<and>
      adj mf' = adj mf \<and>
      capacity mf' ! 1 ! 0 = capacity mf ! 1 ! 0 + 3 \<and>
      capacity mf' ! 0 ! 1 = capacity mf ! 0 ! 1 \<and>
      capacity mf' ! 1 ! 0 \<le> INT_MAX)"
proof -
  have v: "valid_calls 2 ([(0, 1, 4)] @ [(1, 0, 3)])"
    by (simp add: valid_calls_def)
  have f: "cells_fit 2 ([(0, 1, 4)] @ [(1, 0, 3)])"
    by code_simp
  from addEdge_sequence[OF v f] obtain mf mf' where
    r: "add_edges (MaxFlow_init 2) [(0, 1, 4)] = Some mf" "addEdge mf 1 0 3 = Some mf'"
      "adj mf' = (if \<forall>e \<in> set [(0, 1, 4)]. on_pair 1 0 e \<longrightarrow> snd (snd e) = (0::int)
                      then push_both (adj mf) 1 0 else adj mf)"
      "capacity mf' ! 1 ! 0 = capacity mf ! 1 ! 0 + 3"
      "(1::nat) \<noteq> 0 \<longrightarrow> capacity mf' ! 0 ! 1 = capacity mf ! 0 ! 1"
      "\<forall>a < 2. \<forall>b < 2. 0 \<le> capacity mf ! a ! b \<and> capacity mf ! a ! b \<le> INT_MAX \<and>
                0 \<le> capacity mf' ! a ! b \<and> capacity mf' ! a ! b \<le> INT_MAX"
    by blast
  from r(3) have 1: "adj mf' = adj mf" by (simp add: on_pair_def)
  from r(5) have 2: "capacity mf' ! 0 ! 1 = capacity mf ! 0 ! 1" by simp
  from r(6) have 3: "capacity mf' ! 1 ! 0 \<le> INT_MAX" by simp
  show ?thesis
    by (intro conjI v f exI[of _ mf] exI[of _ mf'] r(1) r(2) 1 r(4) 2 3)
qed

text \<open>
  C4 as stated fails three times. With capacity 0 allowed, the call \<open>addEdge(0, 1, 3)\<close>
  after \<open>addEdge(0, 1, 0)\<close> is not the first on the pair, yet it pushes on both adjacency
  lists again. With \<open>u = v\<close>, \<open>capacity[v][u]\<close> is the cell the call adds to. And two
  calls \<open>addEdge(0, 1, INT_MAX)\<close> add up to 4294967294, which no \<open>int\<close> holds: the 32-bit
  \<open>int\<close> of the source wraps to -2, so the call has not added its capacity.
\<close>

theorem addEdge_first_call_counterexample:
  "map_option adj (add_edges (MaxFlow_init 2) [(0, 1, 0)]) = Some [[1], [0]] \<and>
   map_option adj (add_edges (MaxFlow_init 2) [(0, 1, 0), (0, 1, 3)]) = Some [[1, 1], [0, 0]] \<and>
   map_option capacity (addEdge (MaxFlow_init 1) 0 0 3) = Some [[3]] \<and>
   map_option capacity (add_edges (MaxFlow_init 2) [(0, 1, 2147483647), (0, 1, 2147483647)])
     = Some [[0, 4294967294], [0, 0]] \<and>
   int32 4294967294 = - 2"
proof -
  have 1: "map_option adj (add_edges (MaxFlow_init 2) [(0, 1, 0)]) = Some [[1], [0]]"
    by code_simp
  have 2: "map_option adj (add_edges (MaxFlow_init 2) [(0, 1, 0), (0, 1, 3)])
      = Some [[1, 1], [0, 0]]"
    by code_simp
  have 3: "map_option capacity (addEdge (MaxFlow_init 1) 0 0 3) = Some [[3]]"
    by code_simp
  have 4: "map_option capacity
      (add_edges (MaxFlow_init 2) [(0, 1, 2147483647), (0, 1, 2147483647)])
     = Some [[0, 4294967294], [0, 0]]"
    by code_simp
  have 5: "int32 4294967294 = - 2"
    by (simp add: int32_def)
  from 1 2 3 4 5 show ?thesis by (intro conjI)
qed

section \<open>The network builder\<close>

lemma build_step_frame:
  "numHabitats (build_step distance quant maxDist p net) = numHabitats net"
  "habitatLocations (build_step distance quant maxDist p net) = habitatLocations net"
  "sourceHabitat (build_step distance quant maxDist p net) = sourceHabitat net"
  "targetHabitat (build_step distance quant maxDist p net) = targetHabitat net"
  by (simp_all add: build_step_def Let_def)

lemma fold_build_step_frame:
  "numHabitats (fold (build_step distance quant maxDist) ps net) = numHabitats net \<and>
   habitatLocations (fold (build_step distance quant maxDist) ps net) = habitatLocations net \<and>
   sourceHabitat (fold (build_step distance quant maxDist) ps net) = sourceHabitat net \<and>
   targetHabitat (fold (build_step distance quant maxDist) ps net) = targetHabitat net"
  by (induction ps arbitrary: net) (simp_all add: build_step_frame)

lemma build_inner_fold:
  "build_inner distance quant maxDist i js net
     = fold (build_step distance quant maxDist) (map (Pair i) js) net"
  by (induction js arbitrary: net) simp_all

lemma build_outer_fold:
  "build_outer distance quant maxDist is net
     = fold (build_step distance quant maxDist) (pair_order (numHabitats net) is) net"
proof (induction "is" arbitrary: net)
  case Nil
  then show ?case by (simp add: pair_order_def)
next
  case (Cons i "is")
  show ?case
    by (simp add: Cons.IH build_inner_fold fold_build_step_frame pair_order_def)
qed

lemma set_pair_order: "set (pair_order k [0 ..< k]) = {(i, j). i < j \<and> j < k}"
proof -
  have "(a, b) \<in> set (pair_order k [0 ..< k]) \<longleftrightarrow> a < b \<and> b < k" for a b
    by (auto simp: pair_order_def image_iff)
  then show ?thesis by auto
qed

lemma distinct_pair_order: "distinct is \<Longrightarrow> distinct (pair_order k is)"
proof (induction "is")
  case Nil
  then show ?case by (simp add: pair_order_def)
next
  case (Cons i "is")
  have "distinct (map (Pair i) [Suc i ..< k])"
    by (simp add: distinct_map inj_on_def)
  moreover have "set (map (Pair i) [Suc i ..< k]) \<inter> set (pair_order k is) = {}"
    using Cons.prems by (auto simp: pair_order_def)
  ultimately show ?case
    using Cons by (simp add: pair_order_def)
qed

text \<open>The map: keys stay in order, one entry per key.\<close>

lemma key_less_trans: "key_less a b \<Longrightarrow> key_less b c \<Longrightarrow> key_less a c"
  by (auto simp: key_less_def)

lemma key_less_irrefl: "\<not> key_less a a"
  by (simp add: key_less_def)

lemma key_less_total: "a \<noteq> b \<Longrightarrow> \<not> key_less a b \<Longrightarrow> key_less b a"
  by (auto simp: key_less_def prod_eq_iff)

lemma set_map_put: "set (map_put k x m) \<subseteq> insert (k, x) (set m)"
  by (induction m) auto

lemma keys_map_put: "fst ` set (map_put k x m) = insert k (fst ` set m)"
  by (induction m) auto

lemma sorted_map_put:
  "sorted_wrt key_less (map fst m) \<Longrightarrow> sorted_wrt key_less (map fst (map_put k x m))"
proof (induction m)
  case Nil
  then show ?case by simp
next
  case (Cons e m)
  show ?case
  proof (cases "fst e = k")
    case True
    with Cons.prems show ?thesis by simp
  next
    case False
    show ?thesis
    proof (cases "key_less k (fst e)")
      case True
      with Cons.prems False show ?thesis
        by (auto intro: key_less_trans)
    next
      case nl: False
      have ek: "key_less (fst e) k"
        using key_less_total[of k "fst e"] False nl by auto
      have "\<forall>y \<in> fst ` set (map_put k x m). key_less (fst e) y"
        using Cons.prems ek unfolding keys_map_put by auto
      with Cons False nl show ?thesis by simp
    qed
  qed
qed

lemma sorted_keys_distinct: "sorted_wrt key_less ks \<Longrightarrow> distinct ks"
  by (induction ks) (auto simp: key_less_irrefl)


lemma calc_pos_iff:
  "0 < calculateCorridorCapacity distance quant net h1 h2 maxDist
     \<longleftrightarrow> distance (habitatLocations net ! h1) (habitatLocations net ! h2) \<le> maxDist"
  by (auto simp: calculateCorridorCapacity_def Let_def max_def)

lemma calc_frame:
  "habitatLocations net' = habitatLocations net \<Longrightarrow>
   calculateCorridorCapacity distance quant net' h1 h2 maxDist
     = calculateCorridorCapacity distance quant net h1 h2 maxDist"
  by (simp add: calculateCorridorCapacity_def)

lemma fold_build_step_map:
  assumes "sorted_wrt key_less (map fst (corridorCapacity net))"
    "\<forall>e \<in> set (corridorCapacity net). 0 < snd e"
  shows "sorted_wrt key_less (map fst (corridorCapacity (fold (build_step distance quant maxDist) ps net))) \<and>
    (\<forall>e \<in> set (corridorCapacity (fold (build_step distance quant maxDist) ps net)). 0 < snd e) \<and>
    fst ` set (corridorCapacity (fold (build_step distance quant maxDist) ps net))
      = fst ` set (corridorCapacity net) \<union>
        {p \<in> set ps. distance (habitatLocations net ! fst p) (habitatLocations net ! snd p) \<le> maxDist}"
  using assms
proof (induction ps arbitrary: net)
  case Nil
  then show ?case by simp
next
  case (Cons p ps)
  let ?net1 = "build_step distance quant maxDist p net"
  let ?cap = "calculateCorridorCapacity distance quant net (fst p) (snd p) maxDist"
  have loc: "habitatLocations ?net1 = habitatLocations net"
    by (simp add: build_step_frame)
  have s1: "sorted_wrt key_less (map fst (corridorCapacity ?net1))"
    using Cons.prems(1) by (simp add: build_step_def Let_def sorted_map_put)
  have p1: "\<forall>e \<in> set (corridorCapacity ?net1). 0 < snd e"
    using Cons.prems(2) set_map_put[of p ?cap "corridorCapacity net"]
    by (auto simp: build_step_def Let_def)
  have k1: "fst ` set (corridorCapacity ?net1) = fst ` set (corridorCapacity net) \<union>
      (if distance (habitatLocations net ! fst p) (habitatLocations net ! snd p) \<le> maxDist then {p} else {})"
    using calc_pos_iff[of distance quant net "fst p" "snd p" maxDist]
    by (simp add: build_step_def Let_def keys_map_put)
  from Cons.IH[OF s1 p1] show ?case
    unfolding loc k1 by (simp, blast)
qed


text \<open>
  C5. On a network whose corridor map is still empty, \<open>buildCorridorNetwork\<close> leaves a map
  whose keys are exactly the pairs \<open>(i, j)\<close> with \<open>i < j < numHabitats\<close> whose computed
  distance is at most the threshold; every stored capacity is positive; the two loops run
  the body once on every such pair \<open>i < j\<close>, in the order \<open>pair_order\<close>, which has no
  repetition; and the habitat locations (with the other fields) are what they were.
\<close>

theorem buildCorridorNetwork_result:
  assumes "corridorCapacity net = []"
  shows "fst ` set (corridorCapacity (buildCorridorNetwork distance quant net maxDist))
           = {(i, j). i < j \<and> j < numHabitats net \<and>
                distance (habitatLocations net ! i) (habitatLocations net ! j) \<le> maxDist}
    \<and> distinct (map fst (corridorCapacity (buildCorridorNetwork distance quant net maxDist)))
    \<and> (\<forall>e \<in> set (corridorCapacity (buildCorridorNetwork distance quant net maxDist)). 0 < snd e)
    \<and> buildCorridorNetwork distance quant net maxDist
          = fold (build_step distance quant maxDist)
              (pair_order (numHabitats net) [0 ..< numHabitats net]) net
    \<and> distinct (pair_order (numHabitats net) [0 ..< numHabitats net])
    \<and> set (pair_order (numHabitats net) [0 ..< numHabitats net])
          = {(i, j). i < j \<and> j < numHabitats net}
    \<and> habitatLocations (buildCorridorNetwork distance quant net maxDist) = habitatLocations net
    \<and> numHabitats (buildCorridorNetwork distance quant net maxDist) = numHabitats net
    \<and> sourceHabitat (buildCorridorNetwork distance quant net maxDist) = sourceHabitat net
    \<and> targetHabitat (buildCorridorNetwork distance quant net maxDist) = targetHabitat net"
proof -
  let ?ps = "pair_order (numHabitats net) [0 ..< numHabitats net]"
  have eq: "buildCorridorNetwork distance quant net maxDist
              = fold (build_step distance quant maxDist) ?ps net"
    by (simp add: buildCorridorNetwork_def build_outer_fold)
  have s0: "sorted_wrt key_less (map fst (corridorCapacity net))"
    and p0: "\<forall>e \<in> set (corridorCapacity net). 0 < snd e"
    using assms by simp_all
  note m = fold_build_step_map[OF s0 p0, of distance quant maxDist ?ps]
  have keys: "fst ` set (corridorCapacity (fold (build_step distance quant maxDist) ?ps net))
      = {(i, j). i < j \<and> j < numHabitats net \<and>
                distance (habitatLocations net ! i) (habitatLocations net ! j) \<le> maxDist}"
    using m assms by (auto simp: set_pair_order)
  have dk: "distinct (map fst (corridorCapacity (fold (build_step distance quant maxDist) ?ps net)))"
    using m by (blast intro: sorted_keys_distinct)
  have pos: "\<forall>e \<in> set (corridorCapacity (fold (build_step distance quant maxDist) ?ps net)). 0 < snd e"
    using m by blast
  have dp: "distinct ?ps"
    by (simp add: distinct_pair_order)
  show ?thesis
    unfolding eq using keys dk pos dp set_pair_order[of "numHabitats net"]
      fold_build_step_frame[of distance quant maxDist ?ps net]
    by simp
qed

theorem buildCorridorNetwork_result_witness:
  "corridorCapacity (WildlifeCorridorNetwork_init 2 0 1) = [] \<and>
   fst ` set (corridorCapacity (buildCorridorNetwork (\<lambda>a b. \<bar>fst a - fst b\<bar>) (\<lambda>d m. 7)
       (WildlifeCorridorNetwork_init 2 0 1) 1)) = {(0, 1)} \<and>
   distinct (map fst (corridorCapacity (buildCorridorNetwork (\<lambda>a b. \<bar>fst a - fst b\<bar>) (\<lambda>d m. 7)
       (WildlifeCorridorNetwork_init 2 0 1) 1))) \<and>
   habitatLocations (buildCorridorNetwork (\<lambda>a b. \<bar>fst a - fst b\<bar>) (\<lambda>d m. 7)
       (WildlifeCorridorNetwork_init 2 0 1) 1) = [(0, 0), (0, 0)]"
proof -
  have h: "corridorCapacity (WildlifeCorridorNetwork_init 2 0 1) = []"
    by (simp add: WildlifeCorridorNetwork_init_def)
  have n: "numHabitats (WildlifeCorridorNetwork_init 2 0 1) = 2"
    and l: "habitatLocations (WildlifeCorridorNetwork_init 2 0 1) = [(0, 0), (0, 0)]"
    by (simp_all add: WildlifeCorridorNetwork_init_def numeral_2_eq_2)
  have s: "{(i, j). i < j \<and> j < (2::nat) \<and> \<bar>fst ([(0::real, 0::real), (0, 0)] ! i) - fst ([(0, 0), (0, 0)] ! j)\<bar> \<le> (1::real)}
      = {(0, 1)}"
    by (auto simp: less_2_cases_iff)
  note r = buildCorridorNetwork_result[OF h, of "\<lambda>a b. \<bar>fst a - fst b\<bar>" "\<lambda>d m. 7" 1,
      unfolded n l s]
  from r h show ?thesis by blast
qed

section \<open>The breadth-first search\<close>

lemma count_None_update:
  "v < length p \<Longrightarrow> p ! v = None \<Longrightarrow> Suc (count_list (p[v := Some u]) None) = count_list p None"
proof (induction p arbitrary: v)
  case Nil
  then show ?case by simp
next
  case (Cons a p)
  then show ?case by (cases v) auto
qed

lemma parent_tree_extend:
  assumes pt: "parent_tree c source k parent"
    and v: "v < k" "parent ! v = None"
    and u: "u < k" "parent ! u \<noteq> None" "0 < c ! u ! v"
  shows "parent_tree c source k (parent[v := Some u])"
proof -
  from pt have len: "length parent = k" and src: "parent ! source = Some source"
    by (simp_all add: parent_tree_def)
  from pt obtain d :: "nat \<Rightarrow> nat" where
    d: "\<forall>w < k. \<forall>x. w \<noteq> source \<longrightarrow> parent ! w = Some x \<longrightarrow>
          x < k \<and> d x < d w \<and> 0 < c ! x ! w \<and> parent ! x \<noteq> None"
    unfolding parent_tree_def ranked_def by blast
  have vs: "v \<noteq> source" using v(2) src by auto
  have uv: "u \<noteq> v" using u(2) v(2) by auto
  let ?d = "d(v := Suc (d u))"
  let ?p = "parent[v := Some u]"
  have "x < k \<and> ?d x < ?d w \<and> 0 < c ! x ! w \<and> ?p ! x \<noteq> None"
    if w: "w < k" "w \<noteq> source" "?p ! w = Some x" for w x
  proof (cases "w = v")
    case True
    with w v len have "x = u" by simp
    with True u uv v len show ?thesis by (simp add: nth_list_update)
  next
    case False
    with w len have pw: "parent ! w = Some x" by (simp add: nth_list_update)
    from d w(1,2) pw have x: "x < k" "d x < d w" "0 < c ! x ! w" "parent ! x \<noteq> None"
      by blast+
    from x(4) v(2) have "x \<noteq> v" by auto
    with x False len show ?thesis by (simp add: nth_list_update)
  qed
  then have "ranked c source k ?p ?d"
    unfolding ranked_def by blast
  then have "\<exists>d'. ranked c source k ?p d'" by (rule exI[where x = ?d])
  moreover have "?p ! source = Some source"
    using src vs by simp
  ultimately show ?thesis
    using len by (simp add: parent_tree_def)
qed

lemma update_keeps_set:
  "parent ! w \<noteq> None \<Longrightarrow> (parent[v := Some u]) ! w \<noteq> None"
  by (cases "v < length parent") (auto simp: nth_list_update list_update_beyond)

lemma closed_node_update:
  assumes "closed_node mf parent x"
  shows "closed_node mf (parent[v := Some u]) x"
  using assms update_keeps_set[of parent _ v u] unfolding closed_node_def by blast

lemma wf_mf_adj_ids: "wf_mf mf \<Longrightarrow> x < mf_n mf \<Longrightarrow> \<forall>w \<in> set (adj mf ! x). w < mf_n mf"
  by (auto simp: wf_mf_def)

lemma scan_inv_seen:
  assumes "scan_inv mf source sink u seen parent q"
    and "parent ! v \<noteq> None \<or> capacity mf ! u ! v \<le> 0"
  shows "scan_inv mf source sink u (seen @ [v]) parent q"
  using assms unfolding scan_inv_def by auto

lemma scan_inv_push:
  assumes inv: "scan_inv mf source sink u seen parent q"
    and v: "v < mf_n mf" "parent ! v = None" "0 < capacity mf ! u ! v" "v \<noteq> sink"
  shows "scan_inv mf source sink u (seen @ [v]) (parent[v := Some u]) (q @ [(v, fl)])"
proof -
  let ?p = "parent[v := Some u]"
  from inv have pt: "parent_tree (capacity mf) source (mf_n mf) parent"
    and snk: "parent ! sink = None" and u: "u < mf_n mf" "parent ! u \<noteq> None"
    and qs: "\<forall>x \<in> set q. fst x < mf_n mf \<and> parent ! fst x \<noteq> None"
    and ex: "\<forall>x < mf_n mf. x \<noteq> u \<longrightarrow> parent ! x \<noteq> None \<longrightarrow> x \<notin> fst ` set q
        \<longrightarrow> closed_node mf parent x"
    and sn: "\<forall>w \<in> set seen. parent ! w \<noteq> None \<or> capacity mf ! u ! w \<le> 0"
    unfolding scan_inv_def by blast+
  from pt have len: "length parent = mf_n mf" by (simp add: parent_tree_def)
  have keep: "?p ! w \<noteq> None" if "parent ! w \<noteq> None" for w
    using that by (rule update_keeps_set)
  have pv: "?p ! v = Some u" using v(1) len by simp
  have other: "?p ! w = parent ! w" if "w \<noteq> v" for w
    using that by simp
  have 1: "parent_tree (capacity mf) source (mf_n mf) ?p"
    by (rule parent_tree_extend[OF pt v(1,2) u v(3)])
  have 2: "?p ! sink = None" using snk v(4) other by simp
  have 3: "?p ! u \<noteq> None" using u(2) keep by blast
  have 4: "\<forall>x \<in> set (q @ [(v, fl)]). fst x < mf_n mf \<and> ?p ! fst x \<noteq> None"
    using qs keep pv v(1) by auto
  have 5: "closed_node mf ?p x"
    if x: "x < mf_n mf" "x \<noteq> u" "?p ! x \<noteq> None" "x \<notin> fst ` set (q @ [(v, fl)])" for x
  proof -
    from x(4) have xv: "x \<noteq> v" and xq: "x \<notin> fst ` set q" by auto
    from x(3) other[OF xv] have "parent ! x \<noteq> None" by simp
    with ex x(1,2) xq have "closed_node mf parent x" by blast
    then show ?thesis by (rule closed_node_update)
  qed
  have 6: "\<forall>w \<in> set (seen @ [v]). ?p ! w \<noteq> None \<or> capacity mf ! u ! w \<le> 0"
    using sn keep pv by auto
  show ?thesis
    unfolding scan_inv_def using 1 2 3 4 5 6 u(1) by blast
qed

declare bfs_scan.simps [simp del]

lemma bfs_scan_total:
  assumes wf: "wf_mf mf"
    and ids: "\<forall>v \<in> set vs. v < mf_n mf"
    and inv: "scan_inv mf source sink u seen parent q"
  shows "\<exists>found parent' q'.
      bfs_scan (capacity mf) u fl sink vs parent q = Some (found, parent', q') \<and>
      parent_tree (capacity mf) source (mf_n mf) parent' \<and>
      (found \<longrightarrow> parent' ! sink \<noteq> None) \<and>
      (\<not> found \<longrightarrow> scan_inv mf source sink u (seen @ vs) parent' q' \<and>
          count_list parent' None + length q' = count_list parent None + length q)"
  using ids inv
proof (induction vs arbitrary: seen parent q)
  case Nil
  then have "parent_tree (capacity mf) source (mf_n mf) parent"
    by (simp add: scan_inv_def)
  with Nil show ?case by (auto simp: bfs_scan.simps)
next
  case (Cons v vs)
  from Cons.prems have v: "v < mf_n mf" and ids': "\<forall>w \<in> set vs. w < mf_n mf"
    by simp_all
  note inv = Cons.prems(2)
  from inv have pt: "parent_tree (capacity mf) source (mf_n mf) parent"
    and u: "u < mf_n mf" "parent ! u \<noteq> None"
    unfolding scan_inv_def by blast+
  from pt have len: "length parent = mf_n mf" by (simp add: parent_tree_def)
  have rng: "in_range (capacity mf) u v"
    by (rule wf_mf_in_range[OF wf u(1) v])
  have vl: "v < length parent" using v len by simp
  show ?case
  proof (cases "parent ! v \<noteq> None \<or> capacity mf ! u ! v \<le> 0")
    case True
    have step: "bfs_scan (capacity mf) u fl sink (v # vs) parent q
        = bfs_scan (capacity mf) u fl sink vs parent q"
      using True vl rng by (auto simp: bfs_scan.simps)
    have inv': "scan_inv mf source sink u (seen @ [v]) parent q"
      by (rule scan_inv_seen[OF inv True])
    from Cons.IH[OF ids' inv'] show ?thesis
      unfolding step by simp
  next
    case False
    then have pv: "parent ! v = None" and cv: "0 < capacity mf ! u ! v" by auto
    let ?p = "parent[v := Some u]"
    have pt': "parent_tree (capacity mf) source (mf_n mf) ?p"
      by (rule parent_tree_extend[OF pt v pv u cv])
    show ?thesis
    proof (cases "v = sink")
      case True
      have step: "bfs_scan (capacity mf) u fl sink (v # vs) parent q = Some (True, ?p, q)"
        using True vl rng pv cv by (simp add: bfs_scan.simps Let_def)
      have "?p ! sink \<noteq> None" using True vl by simp
      with step pt' show ?thesis by auto
    next
      case ns: False
      let ?q = "q @ [(v, min fl (capacity mf ! u ! v))]"
      have step: "bfs_scan (capacity mf) u fl sink (v # vs) parent q
          = bfs_scan (capacity mf) u fl sink vs ?p ?q"
        using ns vl rng pv cv by (simp add: bfs_scan.simps Let_def)
      have inv': "scan_inv mf source sink u (seen @ [v]) ?p ?q"
        by (rule scan_inv_push[OF inv v pv cv ns])
      have cnt: "count_list ?p None + length ?q = count_list parent None + length q"
        using count_None_update[OF vl pv, of u] by simp
      from Cons.IH[OF ids' inv'] show ?thesis
        unfolding step cnt by simp
    qed
  qed
qed


lemma bfs_inv_scan_start:
  assumes "bfs_inv mf source sink parent (x # q')"
  shows "scan_inv mf source sink (fst x) [] parent q'"
  using assms unfolding bfs_inv_def scan_inv_def by auto

lemma scan_inv_finish:
  assumes "scan_inv mf source sink u (adj mf ! u) parent q"
  shows "bfs_inv mf source sink parent q"
proof -
  from assms have cu: "closed_node mf parent u"
    unfolding scan_inv_def closed_node_def by blast
  have "closed_node mf parent x"
    if "x < mf_n mf" "parent ! x \<noteq> None" "x \<notin> fst ` set q" for x
    using assms cu that unfolding scan_inv_def by (cases "x = u") blast+
  with assms show ?thesis
    unfolding scan_inv_def bfs_inv_def by blast
qed

lemma bfs_loop_total:
  assumes wf: "wf_mf mf" and inv: "bfs_inv mf source sink parent q"
  shows "\<exists>found parent'. bfs_loop mf sink q parent = Some (found, parent') \<and>
      parent_tree (capacity mf) source (mf_n mf) parent' \<and>
      (found \<longrightarrow> parent' ! sink \<noteq> None) \<and>
      (\<not> found \<longrightarrow> parent' ! sink = None \<and>
         (\<forall>x < mf_n mf. parent' ! x \<noteq> None \<longrightarrow> closed_node mf parent' x))"
  using inv
proof (induction "count_list parent None + length q" arbitrary: parent q rule: less_induct)
  case less
  note inv = less.prems
  show ?case
  proof (cases q)
    case Nil
    have run: "bfs_loop mf sink q parent = Some (False, parent)"
      unfolding Nil by (subst bfs_loop.simps) simp
    from inv Nil have "parent_tree (capacity mf) source (mf_n mf) parent"
      "parent ! sink = None"
      "\<forall>x < mf_n mf. parent ! x \<noteq> None \<longrightarrow> closed_node mf parent x"
      unfolding bfs_inv_def by simp_all
    with run show ?thesis by auto
  next
    case (Cons x q')
    let ?u = "fst x"
    from inv Cons have u: "?u < mf_n mf"
      unfolding bfs_inv_def by simp
    have ul: "?u < length (adj mf)" using u wf by (simp add: wf_mf_def)
    have ids: "\<forall>v \<in> set (adj mf ! ?u). v < mf_n mf"
      by (rule wf_mf_adj_ids[OF wf u])
    have si: "scan_inv mf source sink ?u [] parent q'"
      using inv unfolding Cons by (rule bfs_inv_scan_start)
    from bfs_scan_total[OF wf ids si, of "snd x"] obtain found parent' q'' where
      sc: "bfs_scan (capacity mf) ?u (snd x) sink (adj mf ! ?u) parent q' = Some (found, parent', q'')"
      and pt: "parent_tree (capacity mf) source (mf_n mf) parent'"
      and f: "found \<longrightarrow> parent' ! sink \<noteq> None"
      and nf: "\<not> found \<longrightarrow> scan_inv mf source sink ?u ([] @ adj mf ! ?u) parent' q'' \<and>
          count_list parent' None + length q'' = count_list parent None + length q'"
      by blast
    show ?thesis
    proof (cases found)
      case True
      have run: "bfs_loop mf sink q parent = Some (True, parent')"
        unfolding Cons by (subst bfs_loop.simps) (simp add: ul sc True)
      with pt f True show ?thesis by auto
    next
      case False
      have run: "bfs_loop mf sink q parent = bfs_loop mf sink q'' parent'"
        unfolding Cons by (subst bfs_loop.simps) (simp add: ul sc False)
      from nf False have "scan_inv mf source sink ?u (adj mf ! ?u) parent' q''"
        by simp
      then have inv': "bfs_inv mf source sink parent' q''"
        by (rule scan_inv_finish)
      from nf False Cons have m: "count_list parent' None + length q'' < count_list parent None + length q"
        by simp
      from less.hyps[OF m inv'] show ?thesis
        unfolding run .
    qed
  qed
qed

lemma bfs_total:
  assumes wf: "wf_mf mf" and s: "source < mf_n mf" and t: "sink < mf_n mf" and ne: "source \<noteq> sink"
  shows "\<exists>found parent. bfs mf source sink = Some (found, parent) \<and>
      parent_tree (capacity mf) source (mf_n mf) parent \<and>
      (found \<longrightarrow> parent ! sink \<noteq> None) \<and>
      (\<not> found \<longrightarrow> parent ! sink = None \<and>
         (\<forall>x < mf_n mf. parent ! x \<noteq> None \<longrightarrow> closed_node mf parent x))"
proof -
  let ?p = "(replicate (mf_n mf) None)[source := Some source]"
  have nth: "?p ! v = (if v = source then Some source else None)" if "v < mf_n mf" for v
    using that s by (simp add: nth_list_update)
  have pt: "parent_tree (capacity mf) source (mf_n mf) ?p"
    unfolding parent_tree_def ranked_def using nth s by simp
  have inv: "bfs_inv mf source sink ?p [(source, INT_MAX)]"
    unfolding bfs_inv_def using pt nth s t ne by simp
  have "bfs mf source sink = bfs_loop mf sink [(source, INT_MAX)] ?p"
    using s by (simp add: bfs_def)
  with bfs_loop_total[OF wf inv] show ?thesis by simp
qed

section \<open>One augmentation\<close>

lemma wf_matrix_push_arc: "wf_matrix k c \<Longrightarrow> wf_matrix k (push_arc c u v f)"
  by (simp add: push_arc_def wf_matrix_cell_add)

lemma push_arc_nth:
  assumes "wf_matrix k c" "u < k" "v < k" "a < k" "b < k" "u \<noteq> v"
  shows "push_arc c u v f ! a ! b =
     (if a = u \<and> b = v then c ! a ! b - f else if a = v \<and> b = u then c ! a ! b + f else c ! a ! b)"
  using assms
  by (simp add: push_arc_def cell_add_nth[OF wf_matrix_cell_add] cell_add_nth)

lemma cut_sum_cell_add:
  assumes "wf_matrix k c" "u < k" "v < k"
  shows "cut_sum k S (cell_add c u v x) = cut_sum k S c + (if u \<in> S \<and> v \<notin> S then x else 0)"
proof -
  let ?A = "{a. a < k \<and> a \<in> S}" and ?B = "{b. b < k \<and> b \<notin> S}"
  have fA: "finite ?A" and fB: "finite ?B" by simp_all
  have "cut_sum k S (cell_add c u v x)
      = (\<Sum>a\<in>?A. \<Sum>b\<in>?B. c ! a ! b + (if a = u \<and> b = v then x else 0))"
    unfolding cut_sum_def
    by (intro sum.cong refl) (simp add: cell_add_nth[OF assms])
  also have "\<dots> = (\<Sum>a\<in>?A. \<Sum>b\<in>?B. c ! a ! b) + (\<Sum>a\<in>?A. \<Sum>b\<in>?B. (if a = u \<and> b = v then x else 0))"
    by (simp add: sum.distrib)
  also have "(\<Sum>a\<in>?A. \<Sum>b\<in>?B. (if a = u \<and> b = v then x else 0))
      = (\<Sum>a\<in>?A. if a = u then (\<Sum>b\<in>?B. if b = v then x else 0) else 0)"
    by (intro sum.cong refl) simp
  also have "\<dots> = (if u \<in> ?A then (\<Sum>b\<in>?B. if b = v then x else 0) else 0)"
    using fA by simp
  also have "(\<Sum>b\<in>?B. if b = v then x else 0) = (if v \<in> ?B then x else 0)"
    using fB by simp
  finally show ?thesis
    using assms(2,3) by (simp add: cut_sum_def)
qed

lemma cut_sum_push_arc:
  assumes "wf_matrix k c" "u < k" "v < k"
  shows "cut_sum k S (push_arc c u v f) = cut_sum k S c + f * (ind S v - ind S u)"
  unfolding push_arc_def
  by (simp add: cut_sum_cell_add[OF wf_matrix_cell_add[OF assms(1)] assms(3,2)]
      cut_sum_cell_add[OF assms] ind_def)

lemma cut_sum_nonneg: "nonneg_matrix k c \<Longrightarrow> 0 \<le> cut_sum k S c"
  unfolding cut_sum_def nonneg_matrix_def by (intro sum_nonneg) simp

lemma ranked_step:
  assumes "ranked c source k parent d" "v < k" "v \<noteq> source" "parent ! v = Some u"
  shows "u < k" "d u < d v" "0 < c ! u ! v" "parent ! u \<noteq> None"
  using assms unfolding ranked_def by blast+

lemma parent_step_chain:
  assumes "(parent_step parent source)\<^sup>*\<^sup>* v w" "parent_step parent source v u"
  shows "w = v \<or> (parent_step parent source)\<^sup>*\<^sup>* u w"
  using assms(1)
proof (cases rule: converse_rtranclpE)
  case base
  then show ?thesis by simp
next
  case (step y)
  with assms(2) have "y = u" by (simp add: parent_step_def)
  with step show ?thesis by simp
qed

lemma path_min_total:
  assumes r: "ranked c source k parent d" and wm: "wf_matrix k c" and len: "length parent = k"
    and v: "v < k" "parent ! v \<noteq> None"
  shows "\<exists>m. path_min parent c source v acc = Some m \<and> m \<le> acc \<and> (1 \<le> acc \<longrightarrow> 1 \<le> m) \<and>
     (\<forall>w x. (parent_step parent source)\<^sup>*\<^sup>* v w \<longrightarrow> parent_step parent source w x \<longrightarrow> m \<le> c ! x ! w)"
  using v
proof (induction "d v" arbitrary: v acc rule: less_induct)
  case less
  show ?case
  proof (cases "v = source")
    case True
    have run: "path_min parent c source v acc = Some acc"
      by (subst path_min.simps) (simp add: True)
    have "w = source" if "(parent_step parent source)\<^sup>*\<^sup>* source w" for w
      using that by (cases rule: converse_rtranclpE) (simp_all add: parent_step_def)
    then have "\<forall>w x. (parent_step parent source)\<^sup>*\<^sup>* v w \<longrightarrow> parent_step parent source w x \<longrightarrow> acc \<le> c ! x ! w"
      unfolding True by (auto simp: parent_step_def)
    with run show ?thesis by simp
  next
    case False
    from less.prems obtain u where pu: "parent ! v = Some u" by auto
    note u = ranked_step[OF r less.prems(1) False pu]
    have rng: "in_range c u v" by (rule wf_matrix_in_range[OF wm u(1) less.prems(1)])
    have run: "path_min parent c source v acc = path_min parent c source u (min acc (c ! u ! v))"
      by (subst path_min.simps) (simp add: False less.prems(1) len pu rng)
    have ps: "parent_step parent source v u"
      using False pu by (simp add: parent_step_def)
    from less.hyps[OF u(2) u(1) u(4), of "min acc (c ! u ! v)"] obtain m where
      m: "path_min parent c source u (min acc (c ! u ! v)) = Some m" "m \<le> min acc (c ! u ! v)"
        "1 \<le> min acc (c ! u ! v) \<longrightarrow> 1 \<le> m"
      and b: "\<forall>w x. (parent_step parent source)\<^sup>*\<^sup>* u w \<longrightarrow> parent_step parent source w x \<longrightarrow> m \<le> c ! x ! w"
      by blast
    have "m \<le> c ! x ! w"
      if w: "(parent_step parent source)\<^sup>*\<^sup>* v w" "parent_step parent source w x" for w x
    proof -
      from parent_step_chain[OF w(1) ps] show ?thesis
      proof
        assume "w = v"
        with w(2) pu have "x = u" by (simp add: parent_step_def)
        with \<open>w = v\<close> m(2) show ?thesis by simp
      next
        assume "(parent_step parent source)\<^sup>*\<^sup>* u w"
        with b w(2) show ?thesis by blast
      qed
    qed
    moreover have "m \<le> acc" using m(2) by simp
    moreover have "1 \<le> acc \<longrightarrow> 1 \<le> m" using m(3) u(3) by simp
    ultimately show ?thesis unfolding run using m(1) by blast
  qed
qed

lemma augment_total:
  assumes r: "ranked c0 source k parent d" and len: "length parent = k"
    and wm: "wf_matrix k c" and v: "v < k" "parent ! v \<noteq> None"
  shows "\<exists>c'. augment parent source f v c = Some c' \<and>
     (walk_step parent source f)\<^sup>*\<^sup>* (v, c) (source, c')"
  using wm v
proof (induction "d v" arbitrary: v c rule: less_induct)
  case less
  show ?case
  proof (cases "v = source")
    case True
    have "augment parent source f v c = Some c"
      by (subst augment.simps) (simp add: True)
    then show ?thesis using True by simp
  next
    case False
    from less.prems obtain u where pu: "parent ! v = Some u" by auto
    note u = ranked_step[OF r less.prems(2) False pu]
    have rng: "in_range c u v" "in_range c v u"
      using wf_matrix_in_range[OF less.prems(1)] u(1) less.prems(2) by simp_all
    have run: "augment parent source f v c = augment parent source f u (push_arc c u v f)"
      by (subst augment.simps) (simp add: False less.prems(2) len pu rng)
    have st: "walk_step parent source f (v, c) (u, push_arc c u v f)"
      using False less.prems(2) len pu rng by (simp add: walk_step_def)
    from less.hyps[OF u(2) wf_matrix_push_arc[OF less.prems(1)] u(1) u(4)] obtain c' where
      c': "augment parent source f u (push_arc c u v f) = Some c'"
        "(walk_step parent source f)\<^sup>*\<^sup>* (u, push_arc c u v f) (source, c')"
      by blast
    from converse_rtranclp_into_rtranclp[of "walk_step parent source f", OF st c'(2)] c'(1)
    show ?thesis unfolding run by blast
  qed
qed

lemma walk_inv_start:
  assumes "wf_matrix k c0" "nonneg_matrix k c0" "v0 < k" "parent ! v0 \<noteq> None"
  shows "walk_inv c0 source k parent d f v0 v0 c0"
  using assms unfolding walk_inv_def by simp

lemma walk_inv_step:
  assumes r: "ranked c0 source k parent d" and f0: "0 \<le> f"
    and bound: "\<forall>w x. (parent_step parent source)\<^sup>*\<^sup>* v0 w \<longrightarrow> parent_step parent source w x
        \<longrightarrow> f \<le> c0 ! x ! w"
    and inv: "walk_inv c0 source k parent d f v0 v c'"
    and st: "walk_step parent source f (v, c') (u, c'')"
  shows "walk_inv c0 source k parent d f v0 u c''"
proof -
  from inv have wm: "wf_matrix k c'" and v: "v < k"
    and ch: "(parent_step parent source)\<^sup>*\<^sup>* v0 v"
    and nn: "nonneg_matrix k c'"
    and ag: "\<forall>a < k. \<forall>b < k. d a < d v \<or> d b < d v \<longrightarrow> c' ! a ! b = c0 ! a ! b"
    and sy: "\<forall>a < k. \<forall>b < k. c' ! a ! b + c' ! b ! a = c0 ! a ! b + c0 ! b ! a"
    and cs: "\<forall>S. cut_sum k S c' = cut_sum k S c0 + f * (ind S v0 - ind S v)"
    unfolding walk_inv_def by blast+
  from st have vs: "v \<noteq> source" and pu: "parent ! v = Some u" and c'': "c'' = push_arc c' u v f"
    by (simp_all add: walk_step_def)
  note u = ranked_step[OF r v vs pu]
  have uv: "u \<noteq> v" using u(2) by auto
  have ps: "parent_step parent source v u" using vs pu by (simp add: parent_step_def)
  have nth: "c'' ! a ! b =
     (if a = u \<and> b = v then c' ! a ! b - f else if a = v \<and> b = u then c' ! a ! b + f else c' ! a ! b)"
    if "a < k" "b < k" for a b
    unfolding c'' by (rule push_arc_nth[OF wm u(1) v that uv])
  have 1: "wf_matrix k c''" unfolding c'' by (rule wf_matrix_push_arc[OF wm])
  have 2: "(parent_step parent source)\<^sup>*\<^sup>* v0 u"
    using ch ps by (rule rtranclp.rtrancl_into_rtrancl)
  have cuv: "c' ! u ! v = c0 ! u ! v" using ag u(1,2) v by blast
  have fle: "f \<le> c0 ! u ! v" using bound ch ps by blast
  have 3: "nonneg_matrix k c''"
    unfolding nonneg_matrix_def
  proof (intro allI impI)
    fix a b assume ab: "a < k" "b < k"
    have "0 \<le> c' ! a ! b" using nn ab by (simp add: nonneg_matrix_def)
    then show "0 \<le> c'' ! a ! b"
      using nth[OF ab] cuv fle f0 by auto
  qed
  have 4: "\<forall>a < k. \<forall>b < k. d a < d u \<or> d b < d u \<longrightarrow> c'' ! a ! b = c0 ! a ! b"
  proof (intro allI impI)
    fix a b assume ab: "a < k" "b < k" and reg: "d a < d u \<or> d b < d u"
    from reg u(2) have n1: "\<not> (a = u \<and> b = v)" and n2: "\<not> (a = v \<and> b = u)" by auto
    from reg u(2) have "d a < d v \<or> d b < d v" by auto
    with ag ab have "c' ! a ! b = c0 ! a ! b" by blast
    with nth[OF ab] n1 n2 show "c'' ! a ! b = c0 ! a ! b" by simp
  qed
  have 5: "\<forall>a < k. \<forall>b < k. c'' ! a ! b + c'' ! b ! a = c0 ! a ! b + c0 ! b ! a"
  proof (intro allI impI)
    fix a b assume ab: "a < k" "b < k"
    from sy ab have "c' ! a ! b + c' ! b ! a = c0 ! a ! b + c0 ! b ! a" by blast
    then show "c'' ! a ! b + c'' ! b ! a = c0 ! a ! b + c0 ! b ! a"
      using nth[OF ab] nth[OF ab(2,1)] uv by auto
  qed
  have 6: "\<forall>S. cut_sum k S c'' = cut_sum k S c0 + f * (ind S v0 - ind S u)"
  proof
    fix S
    have "cut_sum k S c'' = cut_sum k S c' + f * (ind S v - ind S u)"
      unfolding c'' by (rule cut_sum_push_arc[OF wm u(1) v])
    also have "cut_sum k S c' = cut_sum k S c0 + f * (ind S v0 - ind S v)"
      using cs by blast
    finally show "cut_sum k S c'' = cut_sum k S c0 + f * (ind S v0 - ind S u)"
      by (simp add: algebra_simps)
  qed
  show ?thesis
    unfolding walk_inv_def using 1 2 3 4 5 6 u(1,4) by blast
qed

lemma walk_inv_reach:
  assumes r: "ranked c0 source k parent d" and f0: "0 \<le> f"
    and bound: "\<forall>w x. (parent_step parent source)\<^sup>*\<^sup>* v0 w \<longrightarrow> parent_step parent source w x
        \<longrightarrow> f \<le> c0 ! x ! w"
    and start: "wf_matrix k c0" "nonneg_matrix k c0" "v0 < k" "parent ! v0 \<noteq> None"
    and walk: "(walk_step parent source f)\<^sup>*\<^sup>* (v0, c0) (v, c')"
  shows "walk_inv c0 source k parent d f v0 v c'"
  using walk
proof (induction rule: rtranclp_induct2)
  case refl
  show ?case by (rule walk_inv_start[OF start])
next
  case (step v c' u c'')
  show ?case by (rule walk_inv_step[OF r f0 bound step.IH step.hyps(2)])
qed

section \<open>The loop of maxflow\<close>

lemma wf_mf_with_capacity:
  "wf_mf mf \<Longrightarrow> wf_matrix (mf_n mf) c \<Longrightarrow> wf_mf (mf\<lparr> capacity := c \<rparr>)"
  by (simp add: wf_mf_def)

lemma one_iteration:
  assumes wf: "wf_mf mf" and st: "source < mf_n mf" "sink < mf_n mf" "source \<noteq> sink"
    and wm: "wf_matrix (mf_n mf) c" and nn: "nonneg_matrix (mf_n mf) c"
    and b: "bfs (mf\<lparr> capacity := c \<rparr>) source sink = Some (True, parent)"
  shows "\<exists>pf c' d. path_min parent c source sink INT_MAX = Some pf \<and>
      augment parent source pf sink c = Some c' \<and> 1 \<le> pf \<and>
      (walk_step parent source pf)\<^sup>*\<^sup>* (sink, c) (source, c') \<and>
      (\<forall>v c''. (walk_step parent source pf)\<^sup>*\<^sup>* (sink, c) (v, c'')
          \<longrightarrow> walk_inv c source (mf_n mf) parent d pf sink v c'')"
proof -
  let ?mf = "mf\<lparr> capacity := c \<rparr>" and ?k = "mf_n mf"
  have wf': "wf_mf ?mf" by (rule wf_mf_with_capacity[OF wf wm])
  from bfs_total[OF wf', of source sink] st b
  have pt: "parent_tree c source ?k parent" and ps: "parent ! sink \<noteq> None"
    by auto
  from pt obtain d where len: "length parent = ?k" and r: "ranked c source ?k parent d"
    unfolding parent_tree_def by blast
  from path_min_total[OF r wm len st(2) ps, of INT_MAX] obtain pf where
    pm: "path_min parent c source sink INT_MAX = Some pf" and pf1: "1 \<le> pf"
    and bound: "\<forall>w x. (parent_step parent source)\<^sup>*\<^sup>* sink w \<longrightarrow> parent_step parent source w x
        \<longrightarrow> pf \<le> c ! x ! w"
    by (auto simp: INT_MAX_def)
  from augment_total[OF r len wm st(2) ps, of pf] obtain c' where
    au: "augment parent source pf sink c = Some c'"
    and wk: "(walk_step parent source pf)\<^sup>*\<^sup>* (sink, c) (source, c')"
    by blast
  have pf0: "0 \<le> pf" using pf1 by simp
  have "walk_inv c source ?k parent d pf sink v c''"
    if "(walk_step parent source pf)\<^sup>*\<^sup>* (sink, c) (v, c'')" for v c''
    by (rule walk_inv_reach[OF r pf0 bound wm nn st(2) ps that])
  with pm au pf1 wk show ?thesis by blast
qed

lemma flow_inv_start:
  assumes "wf_mf mf" "nonneg_matrix (mf_n mf) (capacity mf)"
  shows "flow_inv mf source sink 0 (capacity mf)"
  using assms by (simp add: flow_inv_def wf_mf_def)

lemma flow_inv_iter:
  assumes wf: "wf_mf mf" and st: "source < mf_n mf" "sink < mf_n mf" "source \<noteq> sink"
    and inv: "flow_inv mf source sink fl c"
    and b: "bfs (mf\<lparr> capacity := c \<rparr>) source sink = Some (True, parent)"
    and pm: "path_min parent c source sink INT_MAX = Some pf"
    and au: "augment parent source pf sink c = Some c'"
  shows "flow_inv mf source sink (fl + pf) c' \<and> 1 \<le> pf \<and>
     cut_sum (mf_n mf) {source} c' = cut_sum (mf_n mf) {source} c - pf"
proof -
  let ?k = "mf_n mf"
  from inv have wm: "wf_matrix ?k c" and nn: "nonneg_matrix ?k c" and fl0: "0 \<le> fl"
    and sy: "\<forall>a < ?k. \<forall>b < ?k. c ! a ! b + c ! b ! a = capacity mf ! a ! b + capacity mf ! b ! a"
    and cs: "\<forall>S. source \<in> S \<longrightarrow> sink \<notin> S \<longrightarrow> fl + cut_sum ?k S c = cut_sum ?k S (capacity mf)"
    unfolding flow_inv_def by blast+
  from one_iteration[OF wf st wm nn b] pm au obtain d where
    pf1: "1 \<le> pf" and wi: "walk_inv c source ?k parent d pf sink source c'"
    by auto
  from wi have wm': "wf_matrix ?k c'" and nn': "nonneg_matrix ?k c'"
    and sy': "\<forall>a < ?k. \<forall>b < ?k. c' ! a ! b + c' ! b ! a = c ! a ! b + c ! b ! a"
    and cs': "\<forall>S. cut_sum ?k S c' = cut_sum ?k S c + pf * (ind S sink - ind S source)"
    unfolding walk_inv_def by blast+
  have 1: "\<forall>a < ?k. \<forall>b < ?k. c' ! a ! b + c' ! b ! a = capacity mf ! a ! b + capacity mf ! b ! a"
    using sy sy' by simp
  have 2: "fl + pf + cut_sum ?k S c' = cut_sum ?k S (capacity mf)"
    if S: "source \<in> S" "sink \<notin> S" for S
  proof -
    have "cut_sum ?k S c' = cut_sum ?k S c - pf"
      using cs' S by (simp add: ind_def)
    with cs S show ?thesis by simp
  qed
  have 3: "cut_sum ?k {source} c' = cut_sum ?k {source} c - pf"
    using cs' st(3) by (simp add: ind_def)
  show ?thesis
    unfolding flow_inv_def using wm' nn' fl0 pf1 1 2 3 by simp
qed

lemma loop_head_inv:
  assumes wf: "wf_mf mf" and nn: "nonneg_matrix (mf_n mf) (capacity mf)"
    and st: "source < mf_n mf" "sink < mf_n mf" "source \<noteq> sink"
    and lh: "loop_head mf source sink x"
  shows "flow_inv mf source sink (fst x) (snd x)"
  using lh
proof (induction rule: loop_head.induct)
  case start
  show ?case using flow_inv_start[OF wf nn] by simp
next
  case (iter fl c parent pf c')
  from flow_inv_iter[OF wf st _ iter.hyps(2,3,4)] iter.IH
  show ?case by simp
qed

lemma during_inv:
  assumes wf: "wf_mf mf" and nn: "nonneg_matrix (mf_n mf) (capacity mf)"
    and st: "source < mf_n mf" "sink < mf_n mf" "source \<noteq> sink"
    and du: "during mf source sink r"
  shows "wf_matrix (mf_n mf) r \<and> nonneg_matrix (mf_n mf) r \<and>
     (\<forall>a < mf_n mf. \<forall>b < mf_n mf.
        r ! a ! b + r ! b ! a = capacity mf ! a ! b + capacity mf ! b ! a)"
  using du
proof (cases rule: during.cases)
  case (head fl)
  from loop_head_inv[OF wf nn st head] show ?thesis
    by (simp add: flow_inv_def)
next
  case (walk fl c parent pf v)
  let ?k = "mf_n mf"
  from loop_head_inv[OF wf nn st walk(1)] have inv: "flow_inv mf source sink fl c" by simp
  then have wm: "wf_matrix ?k c" and nnc: "nonneg_matrix ?k c"
    and sy: "\<forall>a < ?k. \<forall>b < ?k. c ! a ! b + c ! b ! a = capacity mf ! a ! b + capacity mf ! b ! a"
    unfolding flow_inv_def by blast+
  from one_iteration[OF wf st wm nnc walk(2)] walk(3,4) obtain d where
    wi: "walk_inv c source ?k parent d pf sink v r"
    by auto
  then have "wf_matrix ?k r" "nonneg_matrix ?k r"
    "\<forall>a < ?k. \<forall>b < ?k. r ! a ! b + r ! b ! a = c ! a ! b + c ! b ! a"
    unfolding walk_inv_def by blast+
  with sy show ?thesis by simp
qed

lemma maxflow_loop_total:
  assumes wf: "wf_mf mf" and nn: "nonneg_matrix (mf_n mf) (capacity mf)"
    and st: "source < mf_n mf" "sink < mf_n mf" "source \<noteq> sink"
    and lh: "loop_head mf source sink (fl, c)"
  shows "\<exists>fl' c' parent.
      maxflow_loop (mf\<lparr> capacity := c \<rparr>) source sink fl = Some (fl', mf\<lparr> capacity := c' \<rparr>) \<and>
      loop_head mf source sink (fl', c') \<and>
      bfs (mf\<lparr> capacity := c' \<rparr>) source sink = Some (False, parent) \<and>
      parent_tree c' source (mf_n mf) parent \<and> parent ! sink = None \<and>
      (\<forall>x < mf_n mf. parent ! x \<noteq> None \<longrightarrow> closed_node (mf\<lparr> capacity := c' \<rparr>) parent x)"
  using lh
proof (induction "nat (cut_sum (mf_n mf) {source} c)" arbitrary: fl c rule: less_induct)
  case less
  let ?k = "mf_n mf" and ?mf = "mf\<lparr> capacity := c \<rparr>"
  note lh = less.prems
  from loop_head_inv[OF wf nn st lh] have inv: "flow_inv mf source sink fl c" by simp
  then have wm: "wf_matrix ?k c" by (simp add: flow_inv_def)
  have wf': "wf_mf ?mf" by (rule wf_mf_with_capacity[OF wf wm])
  from bfs_total[OF wf', of source sink] st obtain found parent where
    b: "bfs ?mf source sink = Some (found, parent)"
    and pt: "parent_tree c source ?k parent"
    and nf: "\<not> found \<longrightarrow> parent ! sink = None \<and>
         (\<forall>x < ?k. parent ! x \<noteq> None \<longrightarrow> closed_node ?mf parent x)"
    by auto
  show ?case
  proof (cases found)
    case False
    have run: "maxflow_loop ?mf source sink fl = Some (fl, ?mf)"
      by (subst maxflow_loop.simps) (simp add: b False)
    have b0: "bfs ?mf source sink = Some (False, parent)"
      using b False by simp
    have cl: "parent ! sink = None"
      "\<forall>x < ?k. parent ! x \<noteq> None \<longrightarrow> closed_node ?mf parent x"
      using nf False by simp_all
    from run lh b0 pt cl show ?thesis by blast
  next
    case True
    have b': "bfs ?mf source sink = Some (True, parent)"
      using b True by simp
    have nnc: "nonneg_matrix ?k c" using inv by (simp add: flow_inv_def)
    from one_iteration[OF wf st wm nnc b'] obtain pf c' where
      pm: "path_min parent c source sink INT_MAX = Some pf"
      and au: "augment parent source pf sink c = Some c'"
      by blast
    have run: "maxflow_loop ?mf source sink fl
        = maxflow_loop (mf\<lparr> capacity := c' \<rparr>) source sink (fl + pf)"
      by (subst maxflow_loop.simps) (simp add: b' pm au)
    from flow_inv_iter[OF wf st inv b' pm au] have
      inv': "flow_inv mf source sink (fl + pf) c'" and pf1: "1 \<le> pf"
      and dec: "cut_sum ?k {source} c' = cut_sum ?k {source} c - pf"
      by simp_all
    from inv' have "0 \<le> cut_sum ?k {source} c'"
      by (simp add: flow_inv_def cut_sum_nonneg)
    with dec pf1 have m: "nat (cut_sum ?k {source} c') < nat (cut_sum ?k {source} c)"
      by simp
    have lh': "loop_head mf source sink (fl + pf, c')"
      by (rule loop_head.iter[OF lh b' pm au])
    from less.hyps[OF m lh'] show ?thesis
      unfolding run .
  qed
qed

lemma maxflow_total:
  assumes wf: "wf_mf mf" and nn: "nonneg_matrix (mf_n mf) (capacity mf)"
    and st: "source < mf_n mf" "sink < mf_n mf" "source \<noteq> sink"
  shows "\<exists>fl c' parent.
      maxflow mf source sink = Some (fl, mf\<lparr> capacity := c' \<rparr>) \<and>
      loop_head mf source sink (fl, c') \<and>
      bfs (mf\<lparr> capacity := c' \<rparr>) source sink = Some (False, parent) \<and>
      parent_tree c' source (mf_n mf) parent \<and> parent ! sink = None \<and>
      (\<forall>x < mf_n mf. parent ! x \<noteq> None \<longrightarrow> closed_node (mf\<lparr> capacity := c' \<rparr>) parent x)"
  using maxflow_loop_total[OF wf nn st loop_head.start] by (simp add: maxflow_def)

text \<open>
  The integers stay in the range the initial capacities span, which is why the model
  uses unbounded integers for the C++ \<open>int\<close>: no entry of a matrix during \<open>maxflow\<close>
  exceeds the sum of the two initial capacities of its pair, and the accumulated flow
  never exceeds the initial capacity leaving the source.
\<close>

lemma during_entry_bound:
  assumes wf: "wf_mf mf" and nn: "nonneg_matrix (mf_n mf) (capacity mf)"
    and st: "source < mf_n mf" "sink < mf_n mf" "source \<noteq> sink"
    and du: "during mf source sink r" and ab: "a < mf_n mf" "b < mf_n mf"
  shows "0 \<le> r ! a ! b \<and> r ! a ! b \<le> capacity mf ! a ! b + capacity mf ! b ! a"
proof -
  from during_inv[OF wf nn st du] have n: "nonneg_matrix (mf_n mf) r"
    and sy: "\<forall>a < mf_n mf. \<forall>b < mf_n mf.
        r ! a ! b + r ! b ! a = capacity mf ! a ! b + capacity mf ! b ! a"
    by simp_all
  from n ab have "0 \<le> r ! a ! b" "0 \<le> r ! b ! a" by (simp_all add: nonneg_matrix_def)
  with sy[rule_format, OF ab] show ?thesis by linarith
qed

lemma loop_head_flow_bound:
  assumes wf: "wf_mf mf" and nn: "nonneg_matrix (mf_n mf) (capacity mf)"
    and st: "source < mf_n mf" "sink < mf_n mf" "source \<noteq> sink"
    and lh: "loop_head mf source sink (fl, c)"
  shows "0 \<le> fl \<and> fl \<le> cut_sum (mf_n mf) {source} (capacity mf)"
proof -
  from loop_head_inv[OF wf nn st lh] have inv: "flow_inv mf source sink fl c" by simp
  from inv have f0: "0 \<le> fl" and n: "nonneg_matrix (mf_n mf) c"
    by (simp_all add: flow_inv_def)
  from inv have cs: "\<forall>S. source \<in> S \<longrightarrow> sink \<notin> S \<longrightarrow>
      fl + cut_sum (mf_n mf) S c = cut_sum (mf_n mf) S (capacity mf)"
    by (simp add: flow_inv_def)
  have "source \<in> {source}" "sink \<notin> {source}" using st(3) by simp_all
  from cs[rule_format, OF this] cut_sum_nonneg[OF n, of "{source}"] f0
  show ?thesis by linarith
qed

section \<open>The engine as the reduction builds it\<close>

lemma add_corridors_calls: "add_corridors mf cs = add_edges mf (corridor_calls cs)"
  by (induction cs arbitrary: mf) (auto simp: corridor_calls_def split: option.splits)

lemma valid_corridor_calls: "valid_corridors k cs \<Longrightarrow> valid_calls k (corridor_calls cs)"
  by (fastforce simp: valid_corridors_def valid_calls_def corridor_calls_def)

lemma corridor_calls_Cons:
  "corridor_calls (e # cs)
     = [(fst (fst e), snd (fst e), snd e), (snd (fst e), fst (fst e), snd e)] @ corridor_calls cs"
  by (simp add: corridor_calls_def)

lemma call_sum_corridors:
  assumes "valid_corridors k cs" "i < j"
  shows "call_sum (corridor_calls cs) i j = (case map_of cs (i, j) of None \<Rightarrow> 0 | Some x \<Rightarrow> x) \<and>
         call_sum (corridor_calls cs) j i = (case map_of cs (i, j) of None \<Rightarrow> 0 | Some x \<Rightarrow> x)"
  using assms(1)
proof (induction cs)
  case Nil
  then show ?case by (simp add: corridor_calls_def call_sum_def)
next
  case (Cons e cs)
  from Cons.prems have v: "valid_corridors k cs" and ab: "fst (fst e) < snd (fst e)"
    and nk: "fst e \<notin> fst ` set cs"
    by (auto simp: valid_corridors_def)
  note IH = Cons.IH[OF v]
  have hd: "call_sum [(fst (fst e), snd (fst e), snd e), (snd (fst e), fst (fst e), snd e)] i j
        = (if fst e = (i, j) then snd e else 0)"
      "call_sum [(fst (fst e), snd (fst e), snd e), (snd (fst e), fst (fst e), snd e)] j i
        = (if fst e = (i, j) then snd e else 0)"
    using ab assms(2) by (auto simp: call_sum_def prod_eq_iff)
  show ?case
  proof (cases "fst e = (i, j)")
    case True
    with nk have "map_of cs (i, j) = None"
      by (simp add: map_of_eq_None_iff)
    with IH hd True show ?thesis
      unfolding corridor_calls_Cons call_sum_append by (cases e) simp
  next
    case False
    with IH hd show ?thesis
      unfolding corridor_calls_Cons call_sum_append by (cases e) simp
  qed
qed

lemma add_corridors_state:
  assumes "valid_corridors k cs"
  shows "\<exists>mf. add_corridors (MaxFlow_init k) cs = Some mf \<and> wf_mf mf \<and> mf_n mf = k \<and>
     nonneg_matrix k (capacity mf) \<and>
     (\<forall>e \<in> set cs. capacity mf ! fst (fst e) ! snd (fst e) = snd e \<and>
                     capacity mf ! snd (fst e) ! fst (fst e) = snd e)"
proof -
  from add_edges_state[OF valid_corridor_calls[OF assms]] obtain mf where
    r: "add_edges (MaxFlow_init k) (corridor_calls cs) = Some mf" "wf_mf mf" "mf_n mf = k"
      "nonneg_matrix k (capacity mf)"
    and c: "\<forall>a < k. \<forall>b < k. capacity mf ! a ! b = call_sum (corridor_calls cs) a b"
    by blast
  have "capacity mf ! fst (fst e) ! snd (fst e) = snd e \<and>
        capacity mf ! snd (fst e) ! fst (fst e) = snd e" if e: "e \<in> set cs" for e
  proof -
    from assms e have ij: "fst (fst e) < snd (fst e)" "snd (fst e) < k"
      and d: "distinct (map fst cs)"
      by (auto simp: valid_corridors_def)
    from e have "(fst e, snd e) \<in> set cs" by simp
    with d have m: "map_of cs (fst (fst e), snd (fst e)) = Some (snd e)"
      by simp
    from ij have i: "fst (fst e) < k" by simp
    from call_sum_corridors[OF assms ij(1)] m c i ij(2) show ?thesis
      by simp
  qed
  with r show ?thesis by (auto simp: add_corridors_calls)
qed

text \<open>
  C1, as amended. \<open>solve\<close> adds every corridor of capacity \<open>c\<close> in both directions, so the
  two residual entries of its pair start at \<open>c\<close> each. In every matrix that exists during
  \<open>maxflow\<close> (at the loop head and after each single arc update) they sum up to \<open>2 * c\<close>.
\<close>

theorem conservation_twice_capacity:
  assumes "valid_corridors k cs" and "source < k" "sink < k" "source \<noteq> sink"
    and "add_corridors (MaxFlow_init k) cs = Some mf"
    and "during mf source sink r"
    and "((i, j), c) \<in> set cs"
  shows "r ! i ! j + r ! j ! i = 2 * c"
proof -
  from add_corridors_state[OF assms(1)] assms(5) have
    wf: "wf_mf mf" and k: "mf_n mf = k" and nn: "nonneg_matrix (mf_n mf) (capacity mf)"
    and c0: "\<forall>e \<in> set cs. capacity mf ! fst (fst e) ! snd (fst e) = snd e \<and>
                     capacity mf ! snd (fst e) ! fst (fst e) = snd e"
    by auto
  from c0 assms(7) have ij: "capacity mf ! i ! j = c" "capacity mf ! j ! i = c"
    by force+
  from assms(1,7) have lt: "i < k" "j < k"
    by (force simp: valid_corridors_def)+
  from during_inv[OF wf nn _ _ assms(4) assms(6)] assms(2,3) k
  have "\<forall>a < k. \<forall>b < k. r ! a ! b + r ! b ! a = capacity mf ! a ! b + capacity mf ! b ! a"
    by simp
  with lt ij show ?thesis by simp
qed

theorem conservation_twice_capacity_witness:
  "valid_corridors 2 [((0, 1), 5)] \<and> (0::nat) < 2 \<and> (1::nat) < 2 \<and> (0::nat) \<noteq> 1 \<and>
   add_corridors (MaxFlow_init 2) [((0, 1), 5)]
     = Some \<lparr> mf_n = 2, capacity = [[0, 5], [5, 0]], adj = [[1], [0]] \<rparr> \<and>
   during \<lparr> mf_n = 2, capacity = [[0, 5], [5, 0]], adj = [[1], [0]] \<rparr> 0 1 [[0, 0], [10, 0]] \<and>
   ((0, 1), 5) \<in> set [((0::nat, 1::nat), 5::int)] \<and>
   [[0, 0], [10, 0 :: int]] ! 0 ! 1 + [[0, 0], [10, 0]] ! 1 ! 0 = 2 * 5"
proof -
  let ?mf = "\<lparr> mf_n = 2, capacity = [[0, 5], [5, 0]], adj = [[1], [0]] \<rparr>"
  have v: "valid_corridors 2 [((0, 1), 5)]"
    by (simp add: valid_corridors_def)
  have a: "add_corridors (MaxFlow_init 2) [((0, 1), 5)] = Some ?mf"
    by code_simp
  have s: "(0::nat) < 2" "(1::nat) < 2" "(0::nat) \<noteq> 1" by simp_all
  have b: "bfs (?mf\<lparr> capacity := [[0, 5], [5, 0]] \<rparr>) 0 1 = Some (True, [Some 0, Some 0])"
    by code_simp
  have pm: "path_min [Some 0, Some 0] [[0, 5], [5, 0]] 0 1 INT_MAX = Some 5"
    by code_simp
  have au: "augment [Some 0, Some 0] 0 5 1 [[0, 5], [5, 0]] = Some [[0, 0], [10, 0]]"
    by code_simp
  have "loop_head ?mf 0 1 (0, capacity ?mf)"
    by (rule loop_head.start)
  then have "loop_head ?mf 0 1 (0, [[0, 5], [5, 0]])" by simp
  from loop_head.iter[OF this b pm au] have d: "during ?mf 0 1 [[0, 0], [10, 0]]"
    by (rule during.head)
  have m: "((0, 1), 5) \<in> set [((0::nat, 1::nat), 5::int)]" by simp
  from conservation_twice_capacity[OF v s a d m] v a s d m show ?thesis by blast
qed

text \<open>
  C1 as stated asks for the sum \<open>c\<close>. For one corridor of capacity 5 between habitats 0
  and 1, the matrix right after construction, the first one that \<open>maxflow\<close> sees, has 5 in
  both directions: the sum is 10.
\<close>

theorem conservation_counterexample:
  "add_corridors (MaxFlow_init 2) [((0, 1), 5)]
     = Some \<lparr> mf_n = 2, capacity = [[0, 5], [5, 0]], adj = [[1], [0]] \<rparr> \<and>
   during \<lparr> mf_n = 2, capacity = [[0, 5], [5, 0]], adj = [[1], [0]] \<rparr> 0 1 [[0, 5], [5, 0]] \<and>
   [[0, 5], [5, 0 :: int]] ! 0 ! 1 + [[0, 5], [5, 0]] ! 1 ! 0 \<noteq> 5"
proof -
  let ?mf = "\<lparr> mf_n = 2, capacity = [[0, 5], [5, 0]], adj = [[1], [0]] \<rparr>"
  have a: "add_corridors (MaxFlow_init 2) [((0, 1), 5)] = Some ?mf"
    by code_simp
  have "loop_head ?mf 0 1 (0, capacity ?mf)"
    by (rule loop_head.start)
  then have "during ?mf 0 1 (capacity ?mf)"
    by (rule during.head)
  then have d: "during ?mf 0 1 [[0, 5], [5, 0]]" by simp
  from a d show ?thesis by simp
qed

section \<open>The flow returned is the capacity of a cut\<close>

lemma push_both_mono:
  assumes "x < length a"
  shows "set (a ! x) \<subseteq> set (push_both a u v ! x)"
proof -
  let ?a1 = "a[u := a ! u @ [v]]"
  have 1: "set (a ! x) \<subseteq> set (?a1 ! x)"
    using assms by (cases "x = u") (auto simp: nth_list_update)
  have "set (?a1 ! x) \<subseteq> set (?a1[v := ?a1 ! v @ [u]] ! x)"
    using assms by (cases "x = v") (auto simp: nth_list_update)
  with 1 show ?thesis by (simp add: push_both_def Let_def)
qed

lemma push_both_mem:
  assumes "u < length a" "v < length a"
  shows "v \<in> set (push_both a u v ! u)" "u \<in> set (push_both a u v ! v)"
proof -
  let ?a1 = "a[u := a ! u @ [v]]"
  have 1: "v \<in> set (?a1 ! u)" using assms by simp
  have "set (?a1 ! u) \<subseteq> set (?a1[v := ?a1 ! v @ [u]] ! u)"
    using assms by (cases "u = v") (auto simp: nth_list_update)
  with 1 show "v \<in> set (push_both a u v ! u)" by (auto simp: push_both_def Let_def)
  show "u \<in> set (push_both a u v ! v)"
    using assms by (simp add: push_both_def Let_def)
qed

lemma addEdge_adj_covers:
  assumes wf: "wf_mf mf" and uv: "u < mf_n mf" "v < mf_n mf"
    and ac: "adj_covers mf" and a: "addEdge mf u v cap = Some mf'"
  shows "adj_covers mf'"
proof -
  let ?k = "mf_n mf"
  let ?z = "capacity mf ! u ! v = 0 \<and> capacity mf ! v ! u = 0"
  from a addEdge_Some[OF wf uv, of cap] have
    adj': "adj mf' = (if ?z then push_both (adj mf) u v else adj mf)"
    and cap': "capacity mf' = cell_add (capacity mf) u v cap"
    and k': "mf_n mf' = ?k"
    by auto
  from wf have wm: "wf_matrix ?k (capacity mf)" and la: "length (adj mf) = ?k"
    by (simp_all add: wf_mf_def)
  have grow: "set (adj mf ! x) \<subseteq> set (adj mf' ! x)" if "x < ?k" for x
    using that la push_both_mono[of x "adj mf" u v] by (simp add: adj')
  have new: "v \<in> set (adj mf' ! u) \<and> u \<in> set (adj mf' ! v)"
  proof (cases ?z)
    case True
    with push_both_mem[of u "adj mf" v] uv la show ?thesis by (simp add: adj')
  next
    case False
    with ac uv have "v \<in> set (adj mf ! u)" "u \<in> set (adj mf ! v)"
      unfolding adj_covers_def by blast+
    with grow uv show ?thesis by blast
  qed
  have "y \<in> set (adj mf' ! x)"
    if xy: "x < ?k" "y < ?k" and nz: "capacity mf' ! x ! y \<noteq> 0 \<or> capacity mf' ! y ! x \<noteq> 0" for x y
  proof (cases "(x = u \<and> y = v) \<or> (x = v \<and> y = u)")
    case True
    with new show ?thesis by blast
  next
    case False
    have "capacity mf' ! x ! y = capacity mf ! x ! y" "capacity mf' ! y ! x = capacity mf ! y ! x"
      using False cell_add_nth[OF wm uv xy] cell_add_nth[OF wm uv xy(2,1)]
      by (auto simp: cap')
    with nz ac xy have "y \<in> set (adj mf ! x)"
      unfolding adj_covers_def by simp
    with grow[OF xy(1)] show ?thesis by blast
  qed
  then show ?thesis
    unfolding adj_covers_def k' by blast
qed

lemma add_edges_adj_covers:
  assumes "wf_mf mf" "valid_calls (mf_n mf) es" "adj_covers mf" "add_edges mf es = Some mf'"
  shows "adj_covers mf'"
  using assms
proof (induction es arbitrary: mf)
  case Nil
  then show ?case by simp
next
  case (Cons e es)
  from Cons.prems(2) have uv: "fst e < mf_n mf" "fst (snd e) < mf_n mf"
    and rest: "valid_calls (mf_n mf) es"
    by (simp_all add: valid_calls_Cons)
  from Cons.prems(4) obtain mf1 where
    a1: "addEdge mf (fst e) (fst (snd e)) (snd (snd e)) = Some mf1"
    and r: "add_edges mf1 es = Some mf'"
    by (auto split: option.splits)
  from addEdge_wf[OF Cons.prems(1) uv a1] have w1: "wf_mf mf1" and n1: "mf_n mf1 = mf_n mf"
    by simp_all
  have c1: "adj_covers mf1"
    by (rule addEdge_adj_covers[OF Cons.prems(1) uv Cons.prems(3) a1])
  from Cons.IH[OF w1 _ c1 r] rest n1 show ?case by simp
qed

lemma adj_covers_init: "adj_covers (MaxFlow_init k)"
  by (simp add: adj_covers_def MaxFlow_init_def)

lemma cut_sum_mono:
  assumes "\<forall>a < k. \<forall>b < k. c ! a ! b \<le> c' ! a ! b"
  shows "cut_sum k S c \<le> cut_sum k S c'"
  unfolding cut_sum_def using assms by (intro sum_mono) simp

lemma cut_sum_zero:
  assumes "\<forall>u < k. \<forall>v < k. u \<in> S \<longrightarrow> v \<notin> S \<longrightarrow> c ! u ! v = 0"
  shows "cut_sum k S c = 0"
  unfolding cut_sum_def using assms by (intro sum.neutral ballI) simp

lemma maxflow_is_min_cut:
  assumes wf: "wf_mf mf" and nn: "nonneg_matrix (mf_n mf) (capacity mf)"
    and st: "source < mf_n mf" "sink < mf_n mf" "source \<noteq> sink"
    and ac: "adj_covers mf"
  shows "\<exists>fl c'. maxflow mf source sink = Some (fl, mf\<lparr> capacity := c' \<rparr>) \<and>
     (\<forall>S. source \<in> S \<longrightarrow> sink \<notin> S \<longrightarrow> fl \<le> cut_sum (mf_n mf) S (capacity mf)) \<and>
     (\<exists>S. source \<in> S \<and> sink \<notin> S \<and> fl = cut_sum (mf_n mf) S (capacity mf))"
proof -
  let ?k = "mf_n mf"
  from maxflow_total[OF wf nn st] obtain fl c' parent where
    run: "maxflow mf source sink = Some (fl, mf\<lparr> capacity := c' \<rparr>)"
    and lh: "loop_head mf source sink (fl, c')"
    and pt: "parent_tree c' source ?k parent" and ps: "parent ! sink = None"
    and cl: "\<forall>x < ?k. parent ! x \<noteq> None \<longrightarrow> closed_node (mf\<lparr> capacity := c' \<rparr>) parent x"
    by blast
  from loop_head_inv[OF wf nn st lh] have inv: "flow_inv mf source sink fl c'" by simp
  from inv have nn': "nonneg_matrix ?k c'"
    by (simp add: flow_inv_def)
  from inv have sy: "\<forall>a < ?k. \<forall>b < ?k. c' ! a ! b + c' ! b ! a = capacity mf ! a ! b + capacity mf ! b ! a"
    by (simp add: flow_inv_def)
  from inv have cs: "\<forall>S. source \<in> S \<longrightarrow> sink \<notin> S \<longrightarrow> fl + cut_sum ?k S c' = cut_sum ?k S (capacity mf)"
    by (simp add: flow_inv_def)
  have upper: "\<forall>S. source \<in> S \<longrightarrow> sink \<notin> S \<longrightarrow> fl \<le> cut_sum ?k S (capacity mf)"
  proof (intro allI impI)
    fix S :: "nat set" assume S: "source \<in> S" "sink \<notin> S"
    from cs[rule_format, OF S] have "fl + cut_sum ?k S c' = cut_sum ?k S (capacity mf)" .
    with cut_sum_nonneg[OF nn', of S] show "fl \<le> cut_sum ?k S (capacity mf)" by linarith
  qed
  define R where "R = {x. x < ?k \<and> parent ! x \<noteq> None}"
  from pt have "parent ! source = Some source" by (simp add: parent_tree_def)
  with st(1) have src: "source \<in> R" by (simp add: R_def)
  have snk: "sink \<notin> R" using ps by (simp add: R_def)
  have zero: "\<forall>u < ?k. \<forall>v < ?k. u \<in> R \<longrightarrow> v \<notin> R \<longrightarrow> c' ! u ! v = 0"
  proof (intro allI impI)
    fix u v assume uv: "u < ?k" "v < ?k" and uR: "u \<in> R" and vR: "v \<notin> R"
    from uR have pu: "parent ! u \<noteq> None" by (simp add: R_def)
    from vR uv(2) have pv: "parent ! v = None" by (simp add: R_def)
    show "c' ! u ! v = 0"
    proof (rule ccontr)
      assume ne: "c' ! u ! v \<noteq> 0"
      from nn' uv have "0 \<le> c' ! u ! v" by (simp add: nonneg_matrix_def)
      with ne have pos: "0 < c' ! u ! v" by linarith
      from nn' uv have rev: "0 \<le> c' ! v ! u" by (simp add: nonneg_matrix_def)
      from sy[rule_format, OF uv]
      have "c' ! u ! v + c' ! v ! u = capacity mf ! u ! v + capacity mf ! v ! u" .
      with pos rev have "0 < capacity mf ! u ! v + capacity mf ! v ! u" by linarith
      then have nz: "capacity mf ! u ! v \<noteq> 0 \<or> capacity mf ! v ! u \<noteq> 0" by linarith
      from ac[unfolded adj_covers_def, rule_format, OF uv nz]
      have mem: "v \<in> set (adj mf ! u)" .
      from cl[rule_format, OF uv(1) pu]
      have "closed_node (mf\<lparr> capacity := c' \<rparr>) parent u" .
      then have "\<forall>w \<in> set (adj mf ! u). parent ! w \<noteq> None \<or> c' ! u ! w \<le> 0"
        by (simp add: closed_node_def)
      from this[rule_format, OF mem] pv pos show False by simp
    qed
  qed
  from zero have z: "cut_sum ?k R c' = 0"
    by (rule cut_sum_zero)
  from cs[rule_format, OF src snk] z have eq: "fl = cut_sum ?k R (capacity mf)" by simp
  have ex: "\<exists>S. source \<in> S \<and> sink \<notin> S \<and> fl = cut_sum ?k S (capacity mf)"
    by (rule exI[of _ R]) (simp add: src snk eq[symmetric])
  show ?thesis
    by (rule exI[of _ fl], rule exI[of _ c']) (intro conjI run upper ex)
qed

lemma maxflow_mono:
  assumes wf: "wf_mf mf" "wf_mf mf'" and k: "mf_n mf = k" "mf_n mf' = k"
    and nn: "nonneg_matrix k (capacity mf)" "nonneg_matrix k (capacity mf')"
    and ac: "adj_covers mf" "adj_covers mf'"
    and st: "source < k" "sink < k" "source \<noteq> sink"
    and le: "\<forall>a < k. \<forall>b < k. capacity mf ! a ! b \<le> capacity mf' ! a ! b"
  shows "\<exists>fl r fl' r'. maxflow mf source sink = Some (fl, r) \<and>
     maxflow mf' source sink = Some (fl', r') \<and> fl \<le> fl'"
proof -
  have p1: "nonneg_matrix (mf_n mf) (capacity mf)" "source < mf_n mf" "sink < mf_n mf"
    using nn(1) st(1,2) k(1) by simp_all
  have p2: "nonneg_matrix (mf_n mf') (capacity mf')" "source < mf_n mf'" "sink < mf_n mf'"
    using nn(2) st(1,2) k(2) by simp_all
  from maxflow_is_min_cut[OF wf(1) p1 st(3) ac(1)] obtain fl c1 where
    r1: "maxflow mf source sink = Some (fl, mf\<lparr> capacity := c1 \<rparr>)"
    and u1: "\<forall>S. source \<in> S \<longrightarrow> sink \<notin> S \<longrightarrow> fl \<le> cut_sum (mf_n mf) S (capacity mf)"
    by blast
  from maxflow_is_min_cut[OF wf(2) p2 st(3) ac(2)] obtain fl' c2 S where
    r2: "maxflow mf' source sink = Some (fl', mf'\<lparr> capacity := c2 \<rparr>)"
    and S: "source \<in> S" "sink \<notin> S" and e2: "fl' = cut_sum (mf_n mf') S (capacity mf')"
    by blast
  from u1[rule_format, OF S] k(1) have "fl \<le> cut_sum k S (capacity mf)" by simp
  also have "\<dots> \<le> cut_sum k S (capacity mf')" by (rule cut_sum_mono[OF le])
  finally have "fl \<le> fl'" using e2 k(2) by simp
  with r1 r2 show ?thesis by (intro exI conjI)
qed


lemma call_sum_mono: "list_all2 call_le es es' \<Longrightarrow> call_sum es a b \<le> call_sum es' a b"
proof (induction rule: list_all2_induct)
  case Nil
  show ?case by simp
next
  case (Cons e es e' es')
  from Cons.hyps(1) have "(if fst e = a \<and> fst (snd e) = b then snd (snd e) else 0)
      \<le> (if fst e' = a \<and> fst (snd e') = b then snd (snd e') else 0)"
    by (simp add: call_le_def)
  with Cons.IH show ?case
    unfolding call_sum_Cons by (rule add_mono[rotated])
qed

lemma valid_calls_raised:
  assumes "list_all2 call_le es es'" "valid_calls k es"
  shows "valid_calls k es'"
  using assms
proof (induction rule: list_all2_induct)
  case Nil
  then show ?case by simp
next
  case (Cons e es e' es')
  from Cons.prems have "fst e < k" "fst (snd e) < k" "0 \<le> snd (snd e)" "valid_calls k es"
    by (simp_all add: valid_calls_Cons)
  with Cons.hyps(1) Cons.IH show ?case
    by (simp add: valid_calls_Cons call_le_def)
qed

lemma raise_call_le:
  assumes "i < length es" "snd (snd (es ! i)) \<le> x"
  shows "list_all2 call_le es (raise_call es i x)"
proof -
  have "call_le (es ! j) (raise_call es i x ! j)" if "j < length es" for j
    using that assms by (cases "j = i") (simp_all add: raise_call_def call_le_def)
  then show ?thesis
    by (simp add: list_all2_conv_all_nth raise_call_def)
qed


lemma add_edges_full_state:
  assumes "valid_calls k es"
  shows "\<exists>mf. add_edges (MaxFlow_init k) es = Some mf \<and> wf_mf mf \<and> mf_n mf = k \<and>
     nonneg_matrix k (capacity mf) \<and> adj_covers mf \<and>
     (\<forall>a < k. \<forall>b < k. capacity mf ! a ! b = call_sum es a b)"
proof -
  from add_edges_state[OF assms] obtain mf where
    r: "add_edges (MaxFlow_init k) es = Some mf" "wf_mf mf" "mf_n mf = k"
      "nonneg_matrix k (capacity mf)"
      "\<forall>a < k. \<forall>b < k. capacity mf ! a ! b = call_sum es a b"
    by blast
  have v: "valid_calls (mf_n (MaxFlow_init k)) es"
    using assms by (simp add: MaxFlow_init_def)
  have "adj_covers mf"
    by (rule add_edges_adj_covers[OF wf_mf_init v adj_covers_init r(1)])
  with r show ?thesis by (intro exI conjI)
qed


section \<open>Engines whose capacities fit the C++ int\<close>

lemma pairs_fit_iff:
  "pairs_fit k es \<longleftrightarrow>
     (\<forall>a < k. \<forall>b < k. call_sum es a b + (if a = b then 0 else call_sum es b a) \<le> INT_MAX)"
  by (auto simp: pairs_fit_def list_all_iff)

lemma cut_sum_source:
  assumes "source < k"
  shows "cut_sum k {source} c
     = sum_list (map (\<lambda>v. c ! source ! v) (filter (\<lambda>v. v \<noteq> source) [0 ..< k]))"
proof -
  have A: "{u. u < k \<and> u \<in> {source}} = {source}" using assms by auto
  have B: "{v. v < k \<and> v \<notin> {source}} = set (filter (\<lambda>v. v \<noteq> source) [0 ..< k])"
    by auto
  have "cut_sum k {source} c = (\<Sum>v \<in> set (filter (\<lambda>v. v \<noteq> source) [0 ..< k]). c ! source ! v)"
    unfolding cut_sum_def A B by simp
  also have "\<dots> = sum_list (map (\<lambda>v. c ! source ! v) (filter (\<lambda>v. v \<noteq> source) [0 ..< k]))"
    by (rule sum_list_distinct_conv_sum_set[symmetric]) simp
  finally show ?thesis .
qed

lemma source_fits_cut:
  assumes "source < k" "source_fits k es source"
    and "\<forall>a < k. \<forall>b < k. c ! a ! b = call_sum es a b"
  shows "cut_sum k {source} c \<le> INT_MAX"
proof -
  let ?xs = "filter (\<lambda>v. v \<noteq> source) [0 ..< k]"
  have "map (\<lambda>v. c ! source ! v) ?xs = map (call_sum es source) ?xs"
    using assms(1,3) by (intro map_cong refl) simp
  then have "sum_list (map (\<lambda>v. c ! source ! v) ?xs) = sum_list (map (call_sum es source) ?xs)"
    by (rule arg_cong)
  moreover have "cut_sum k {source} c = sum_list (map (\<lambda>v. c ! source ! v) ?xs)"
    by (rule cut_sum_source[OF assms(1)])
  moreover have "sum_list (map (call_sum es source) ?xs) \<le> INT_MAX"
    using assms(2) by (simp add: source_fits_def)
  ultimately show ?thesis by linarith
qed

lemma pairs_fit_cell:
  assumes "pairs_fit k es" "a < k" "b < k"
  shows "call_sum es a b + (if a = b then 0 else call_sum es b a) \<le> INT_MAX"
  using assms unfolding pairs_fit_iff by blast

lemma pairs_fit_entry:
  assumes "pairs_fit k es" "a < k" "b < k"
    and c0: "\<forall>a < k. \<forall>b < k. c0 ! a ! b = call_sum es a b"
    and n: "0 \<le> r ! a ! b" "0 \<le> r ! b ! a"
    and sy: "r ! a ! b + r ! b ! a = c0 ! a ! b + c0 ! b ! a"
  shows "r ! a ! b \<le> INT_MAX"
proof -
  note f = pairs_fit_cell[OF assms(1,2,3)]
  from c0 assms(2,3) have e: "c0 ! a ! b = call_sum es a b" "c0 ! b ! a = call_sum es b a"
    by simp_all
  show ?thesis
  proof (cases "a = b")
    case True
    with f sy e show ?thesis by simp
  next
    case False
    with f sy e n show ?thesis by simp
  qed
qed


lemma pairs_fit_raised:
  assumes "list_all2 call_le es es'" "valid_calls k es" "pairs_fit k es'"
  shows "pairs_fit k es"
proof -
  have "call_sum es a b + (if a = b then 0 else call_sum es b a) \<le> INT_MAX"
    if ab: "a < k" "b < k" for a b
    using pairs_fit_cell[OF assms(3) ab] call_sum_mono[OF assms(1), of a b]
      call_sum_mono[OF assms(1), of b a]
    by (cases "a = b") simp_all
  then show ?thesis unfolding pairs_fit_iff by blast
qed

lemma source_fits_raised:
  assumes "list_all2 call_le es es'" "source_fits k es' source"
  shows "source_fits k es source"
proof -
  have "sum_list (map (call_sum es source) (filter (\<lambda>v. v \<noteq> source) [0 ..< k]))
      \<le> sum_list (map (call_sum es' source) (filter (\<lambda>v. v \<noteq> source) [0 ..< k]))"
    by (rule sum_list_mono) (rule call_sum_mono[OF assms(1)])
  with assms(2) show ?thesis by (simp add: source_fits_def)
qed

text \<open>
  C9. On an engine built by \<open>addEdge\<close> calls with valid node ids and capacities that are
  not negative, where the capacities put on the two cells of any pair sum up to at most
  \<open>INT_MAX\<close> (so that \<open>capacity[v][u] += path_flow\<close> cannot overflow), with source and sink
  among the nodes and different: every matrix that exists during \<open>maxflow\<close> (at the loop
  head and after each single arc update) is square of the same size, and each of its
  entries lies between 0 and \<open>INT_MAX\<close>.
\<close>

theorem residual_never_negative:
  assumes "valid_calls k es" and "pairs_fit k es"
    and "add_edges (MaxFlow_init k) es = Some mf"
    and "source < k" "sink < k" "source \<noteq> sink"
    and "during mf source sink r"
  shows "wf_matrix k r \<and> (\<forall>u < k. \<forall>v < k. 0 \<le> r ! u ! v \<and> r ! u ! v \<le> INT_MAX)"
proof -
  from add_edges_state[OF assms(1)] assms(3) have
    wf: "wf_mf mf" and k: "mf_n mf = k" and nn: "nonneg_matrix (mf_n mf) (capacity mf)"
    and c0: "\<forall>a < k. \<forall>b < k. capacity mf ! a ! b = call_sum es a b"
    by auto
  have st: "source < mf_n mf" "sink < mf_n mf" using assms(4,5) k by simp_all
  from during_inv[OF wf nn st assms(6,7)] k have wm: "wf_matrix k r"
    and n: "nonneg_matrix k r"
    and sy: "\<forall>a < k. \<forall>b < k. r ! a ! b + r ! b ! a = capacity mf ! a ! b + capacity mf ! b ! a"
    by simp_all
  have "0 \<le> r ! u ! v \<and> r ! u ! v \<le> INT_MAX" if uv: "u < k" "v < k" for u v
  proof -
    from n uv have p: "0 \<le> r ! u ! v" "0 \<le> r ! v ! u" by (simp_all add: nonneg_matrix_def)
    from pairs_fit_entry[OF assms(2) uv c0 p sy[rule_format, OF uv]] p(1)
    show ?thesis by simp
  qed
  with wm show ?thesis by blast
qed

theorem residual_never_negative_witness:
  "valid_calls 2 [(0, 1, 5), (1, 0, 5)] \<and> pairs_fit 2 [(0, 1, 5), (1, 0, 5)] \<and>
   add_edges (MaxFlow_init 2) [(0, 1, 5), (1, 0, 5)]
     = Some \<lparr> mf_n = 2, capacity = [[0, 5], [5, 0]], adj = [[1], [0]] \<rparr> \<and>
   (0::nat) < 2 \<and> (1::nat) < 2 \<and> (0::nat) \<noteq> 1 \<and>
   during \<lparr> mf_n = 2, capacity = [[0, 5], [5, 0]], adj = [[1], [0]] \<rparr> 0 1 [[0, 0], [10, 0]] \<and>
   wf_matrix 2 [[0, 0], [10, 0]] \<and>
   0 \<le> [[0, 0], [10, 0 :: int]] ! 1 ! 0 \<and> [[0, 0], [10, 0 :: int]] ! 1 ! 0 \<le> INT_MAX"
proof -
  let ?mf = "\<lparr> mf_n = 2, capacity = [[0, 5], [5, 0]], adj = [[1], [0]] \<rparr>"
  have v: "valid_calls 2 [(0, 1, 5), (1, 0, 5)]"
    by (simp add: valid_calls_def)
  have p: "pairs_fit 2 [(0, 1, 5), (1, 0, 5)]"
    by code_simp
  have a: "add_edges (MaxFlow_init 2) [(0, 1, 5), (1, 0, 5)] = Some ?mf"
    by code_simp
  have s: "(0::nat) < 2" "(1::nat) < 2" "(0::nat) \<noteq> 1" by simp_all
  have b: "bfs (?mf\<lparr> capacity := [[0, 5], [5, 0]] \<rparr>) 0 1 = Some (True, [Some 0, Some 0])"
    by code_simp
  have pm: "path_min [Some 0, Some 0] [[0, 5], [5, 0]] 0 1 INT_MAX = Some 5"
    by code_simp
  have au: "augment [Some 0, Some 0] 0 5 1 [[0, 5], [5, 0]] = Some [[0, 0], [10, 0]]"
    by code_simp
  have "loop_head ?mf 0 1 (0, capacity ?mf)"
    by (rule loop_head.start)
  then have "loop_head ?mf 0 1 (0, [[0, 5], [5, 0]])" by simp
  from loop_head.iter[OF this b pm au] have d: "during ?mf 0 1 [[0, 0], [10, 0]]"
    by (rule during.head)
  from residual_never_negative[OF v p a s d] v p a s d show ?thesis
    by (simp add: INT_MAX_def)
qed



lemma maxflow_value_fits:
  assumes wf: "wf_mf mf" and nn: "nonneg_matrix (mf_n mf) (capacity mf)"
    and st: "source < mf_n mf" "sink < mf_n mf" "source \<noteq> sink"
    and run: "maxflow mf source sink = Some (fl, r)"
  shows "0 \<le> fl \<and> fl \<le> cut_sum (mf_n mf) {source} (capacity mf)"
proof -
  from maxflow_total[OF wf nn st] obtain fl0 c' where
    r0: "maxflow mf source sink = Some (fl0, mf\<lparr> capacity := c' \<rparr>)"
    and lh: "loop_head mf source sink (fl0, c')"
    by blast
  from r0 run have "fl0 = fl" by simp
  with loop_head_flow_bound[OF wf nn st lh] show ?thesis by simp
qed

text \<open>
  C8. Two engines on \<open>k\<close> nodes built by the same \<open>addEdge\<close> calls (valid node ids,
  capacities not negative), except that capacities are raised in the second sequence; a
  single raised call (\<open>raise_call\<close>) and a corridor raised in both of its directions are
  instances. The raised capacities fit the \<open>int\<close> (\<open>pairs_fit\<close>, \<open>source_fits\<close>), and then so
  do the original ones: no addition of either run overflows. With the same source and
  sink, both runs of \<open>maxflow\<close> return, and the flow of the second is at least the flow of
  the first; both lie between 0 and \<open>INT_MAX\<close>.
\<close>

theorem maxflow_monotone:
  assumes "valid_calls k es" and "list_all2 call_le es es'"
    and "pairs_fit k es'" and "source_fits k es' source"
    and "source < k" "sink < k" "source \<noteq> sink"
  shows "\<exists>mf mf' fl r fl' r'.
      add_edges (MaxFlow_init k) es = Some mf \<and> add_edges (MaxFlow_init k) es' = Some mf' \<and>
      maxflow mf source sink = Some (fl, r) \<and> maxflow mf' source sink = Some (fl', r') \<and>
      0 \<le> fl \<and> fl \<le> fl' \<and> fl' \<le> INT_MAX \<and>
      pairs_fit k es \<and> source_fits k es source"
proof -
  have v': "valid_calls k es'"
    by (rule valid_calls_raised[OF assms(2,1)])
  from add_edges_full_state[OF assms(1)] obtain mf where
    m: "add_edges (MaxFlow_init k) es = Some mf" "wf_mf mf" "mf_n mf = k"
      "nonneg_matrix k (capacity mf)" "adj_covers mf"
    and c: "\<forall>a < k. \<forall>b < k. capacity mf ! a ! b = call_sum es a b"
    by blast
  from add_edges_full_state[OF v'] obtain mf' where
    m': "add_edges (MaxFlow_init k) es' = Some mf'" "wf_mf mf'" "mf_n mf' = k"
      "nonneg_matrix k (capacity mf')" "adj_covers mf'"
    and c': "\<forall>a < k. \<forall>b < k. capacity mf' ! a ! b = call_sum es' a b"
    by blast
  have le: "\<forall>a < k. \<forall>b < k. capacity mf ! a ! b \<le> capacity mf' ! a ! b"
    using c c' call_sum_mono[OF assms(2)] by simp
  from maxflow_mono[OF m(2) m'(2) m(3) m'(3) m(4) m'(4) m(5) m'(5) assms(5-7) le]
  obtain fl r fl' r' where
    runs: "maxflow mf source sink = Some (fl, r)" "maxflow mf' source sink = Some (fl', r')"
    and mono: "fl \<le> fl'"
    by blast
  have p: "nonneg_matrix (mf_n mf) (capacity mf)" "source < mf_n mf" "sink < mf_n mf"
    using m(3,4) assms(5,6) by simp_all
  have p': "nonneg_matrix (mf_n mf') (capacity mf')" "source < mf_n mf'" "sink < mf_n mf'"
    using m'(3,4) assms(5,6) by simp_all
  from maxflow_value_fits[OF m(2) p assms(7) runs(1)] have lo: "0 \<le> fl" by simp
  from maxflow_value_fits[OF m'(2) p' assms(7) runs(2)] m'(3)
  have "fl' \<le> cut_sum k {source} (capacity mf')" by simp
  with source_fits_cut[OF assms(5,4) c'] have hi: "fl' \<le> INT_MAX" by linarith
  have pf: "pairs_fit k es" by (rule pairs_fit_raised[OF assms(2,1,3)])
  have sf: "source_fits k es source" by (rule source_fits_raised[OF assms(2,4)])
  show ?thesis
    by (rule exI[of _ mf], rule exI[of _ mf'], rule exI[of _ fl], rule exI[of _ r],
        rule exI[of _ fl'], rule exI[of _ r'])
       (intro conjI m(1) m'(1) runs lo mono hi pf sf)
qed

theorem maxflow_monotone_witness:
  "valid_calls 2 [(0, 1, 5), (1, 0, 5)] \<and>
   list_all2 call_le [(0, 1, 5), (1, 0, 5)] (raise_call [(0, 1, 5), (1, 0, 5)] 0 7) \<and>
   pairs_fit 2 (raise_call [(0, 1, 5), (1, 0, 5)] 0 7) \<and>
   source_fits 2 (raise_call [(0, 1, 5), (1, 0, 5)] 0 7) 0 \<and>
   (0::nat) < 2 \<and> (1::nat) < 2 \<and> (0::nat) \<noteq> 1 \<and>
   (\<exists>mf mf' fl r fl' r'.
      add_edges (MaxFlow_init 2) [(0, 1, 5), (1, 0, 5)] = Some mf \<and>
      add_edges (MaxFlow_init 2) (raise_call [(0, 1, 5), (1, 0, 5)] 0 7) = Some mf' \<and>
      maxflow mf 0 1 = Some (fl, r) \<and> maxflow mf' 0 1 = Some (fl', r') \<and>
      0 \<le> fl \<and> fl \<le> fl' \<and> fl' \<le> INT_MAX \<and>
      pairs_fit 2 [(0, 1, 5), (1, 0, 5)] \<and> source_fits 2 [(0, 1, 5), (1, 0, 5)] 0)"
proof -
  have v: "valid_calls 2 [(0, 1, 5), (1, 0, 5)]"
    by (simp add: valid_calls_def)
  have l: "list_all2 call_le [(0, 1, 5), (1, 0, 5)] (raise_call [(0, 1, 5), (1, 0, 5)] 0 7)"
    by (simp add: raise_call_def call_le_def)
  have p: "pairs_fit 2 (raise_call [(0, 1, 5), (1, 0, 5)] 0 7)"
    by code_simp
  have f: "source_fits 2 (raise_call [(0, 1, 5), (1, 0, 5)] 0 7) 0"
    by code_simp
  have s: "(0::nat) < 2" "(1::nat) < 2" "(0::nat) \<noteq> 1" by simp_all
  from maxflow_monotone[OF v l p f s] v l p f s show ?thesis by (intro conjI)
qed

lemma int32_fits: "- 2147483648 \<le> x \<Longrightarrow> x \<le> INT_MAX \<Longrightarrow> int32 x = x"
  by (simp add: int32_def INT_MAX_def)

text \<open>
  C9 as stated, for all capacities that are not negative, fails where an addition
  overflows. After \<open>addEdge(0, 1, INT_MAX)\<close> and \<open>addEdge(1, 0, 1)\<close>, the first pass of
  \<open>maxflow(0, 1)\<close> pushes \<open>INT_MAX\<close> along the arc from 0 to 1, and
  \<open>capacity[1][0] += path_flow\<close> has the exact result 2147483648, which no \<open>int\<close> holds:
  the 32-bit \<open>int\<close> of the source wraps to -2147483648, a negative entry.
\<close>

theorem residual_overflow_counterexample:
  "valid_calls 2 [(0, 1, 2147483647), (1, 0, 1)] \<and>
   add_edges (MaxFlow_init 2) [(0, 1, 2147483647), (1, 0, 1)]
     = Some \<lparr> mf_n = 2, capacity = [[0, 2147483647], [1, 0]], adj = [[1], [0]] \<rparr> \<and>
   during \<lparr> mf_n = 2, capacity = [[0, 2147483647], [1, 0]], adj = [[1], [0]] \<rparr> 0 1
     [[0, 0], [2147483648, 0]] \<and>
   INT_MAX < [[0, 0], [2147483648, 0]] ! 1 ! 0 \<and>
   int32 ([[0, 0], [2147483648, 0]] ! 1 ! 0) = - 2147483648"
proof -
  let ?mf = "\<lparr> mf_n = 2, capacity = [[0, 2147483647], [1, 0]], adj = [[1], [0]] \<rparr>"
  have v: "valid_calls 2 [(0, 1, 2147483647), (1, 0, 1)]"
    by (simp add: valid_calls_def)
  have a: "add_edges (MaxFlow_init 2) [(0, 1, 2147483647), (1, 0, 1)] = Some ?mf"
    by code_simp
  have b: "bfs (?mf\<lparr> capacity := [[0, 2147483647], [1, 0]] \<rparr>) 0 1 = Some (True, [Some 0, Some 0])"
    by code_simp
  have pm: "path_min [Some 0, Some 0] [[0, 2147483647], [1, 0]] 0 1 INT_MAX = Some 2147483647"
    by code_simp
  have au: "augment [Some 0, Some 0] 0 2147483647 1 [[0, 2147483647], [1, 0]]
      = Some [[0, 0], [2147483648, 0]]"
    by code_simp
  have "loop_head ?mf 0 1 (0, capacity ?mf)"
    by (rule loop_head.start)
  then have "loop_head ?mf 0 1 (0, [[0, 2147483647], [1, 0]])" by simp
  from loop_head.iter[OF this b pm au] have d: "during ?mf 0 1 [[0, 0], [2147483648, 0]]"
    by (rule during.head)
  have o: "INT_MAX < [[0, 0], [2147483648, 0]] ! 1 ! 0"
    by (simp add: INT_MAX_def)
  have w: "int32 ([[0, 0], [2147483648, 0]] ! 1 ! 0) = - 2147483648"
    by (simp add: int32_def)
  from v a d o w show ?thesis by (intro conjI)
qed

text \<open>
  C8 as stated, for all capacities that are not negative, fails where the flow overflows.
  With the calls \<open>(0, 1, INT_MAX - 1)\<close>, \<open>(0, 2, 1)\<close>, \<open>(2, 1, 1)\<close> the flow from 0 to 1 is
  \<open>INT_MAX\<close>. Raising the first capacity to \<open>INT_MAX\<close> makes the exact flow 2147483648,
  reached by the last \<open>flow += path_flow\<close>; no \<open>int\<close> holds it, the 32-bit \<open>int\<close> of the
  source wraps to -2147483648, and the flow returned has decreased.
\<close>

theorem monotone_overflow_counterexample:
  "valid_calls 3 [(0, 1, 2147483646), (0, 2, 1), (2, 1, 1)] \<and>
   list_all2 call_le [(0, 1, 2147483646), (0, 2, 1), (2, 1, 1)]
     [(0, 1, 2147483647), (0, 2, 1), (2, 1, 1)] \<and>
   map_option fst (Option.bind
      (add_edges (MaxFlow_init 3) [(0, 1, 2147483646), (0, 2, 1), (2, 1, 1)])
      (\<lambda>mf. maxflow mf 0 1)) = Some 2147483647 \<and>
   map_option fst (Option.bind
      (add_edges (MaxFlow_init 3) [(0, 1, 2147483647), (0, 2, 1), (2, 1, 1)])
      (\<lambda>mf. maxflow mf 0 1)) = Some 2147483648 \<and>
   int32 2147483648 = - 2147483648 \<and>
   int32 2147483648 < 2147483647"
proof -
  have v: "valid_calls 3 [(0, 1, 2147483646), (0, 2, 1), (2, 1, 1)]"
    by (simp add: valid_calls_def)
  have l: "list_all2 call_le [(0, 1, 2147483646), (0, 2, 1), (2, 1, 1)]
     [(0, 1, 2147483647), (0, 2, 1), (2, 1, 1)]"
    by (simp add: call_le_def)
  have r1: "map_option fst (Option.bind
      (add_edges (MaxFlow_init 3) [(0, 1, 2147483646), (0, 2, 1), (2, 1, 1)])
      (\<lambda>mf. maxflow mf 0 1)) = Some 2147483647"
    by code_simp
  have r2: "map_option fst (Option.bind
      (add_edges (MaxFlow_init 3) [(0, 1, 2147483647), (0, 2, 1), (2, 1, 1)])
      (\<lambda>mf. maxflow mf 0 1)) = Some 2147483648"
    by code_simp
  have w: "int32 2147483648 = - 2147483648" "int32 2147483648 < 2147483647"
    by (simp_all add: int32_def)
  from v l r1 r2 w show ?thesis by (intro conjI)
qed

section \<open>The reduction driver\<close>

lemma used_inner_total:
  assumes "wf_matrix k c" "i < k" "\<forall>j \<in> set js. j < k"
  shows "\<exists>r. used_inner c i js acc = Some r"
  using assms(3)
proof (induction js arbitrary: acc)
  case Nil
  show ?case by simp
next
  case (Cons j js)
  from Cons.prems have j: "j < k" and rest: "\<forall>x \<in> set js. x < k" by simp_all
  have rng: "in_range c j i" by (rule wf_matrix_in_range[OF assms(1) j assms(2)])
  show ?case
    using Cons.IH[OF rest] rng by simp
qed

lemma used_outer_total:
  assumes "wf_matrix k c" "\<forall>i \<in> set is. i < k"
  shows "\<exists>r. used_outer c k is acc = Some r"
  using assms(2)
proof (induction "is" arbitrary: acc)
  case Nil
  show ?case by simp
next
  case (Cons i "is")
  from Cons.prems have i: "i < k" and rest: "\<forall>x \<in> set is. x < k" by simp_all
  have "\<forall>j \<in> set [Suc i ..< k]. j < k" by simp
  from used_inner_total[OF assms(1) i this, of acc] obtain r1 where
    r1: "used_inner c i [Suc i ..< k] acc = Some r1" by blast
  from Cons.IH[OF rest, of r1] show ?case
    by (simp add: r1)
qed

lemma getUsedCorridors_total:
  assumes "wf_matrix k (capacity mf)"
  shows "\<exists>r. getUsedCorridors mf k = Some r"
  unfolding getUsedCorridors_def by (rule used_outer_total[OF assms]) simp

lemma solve_total:
  assumes "valid_corridors (numHabitats net) (corridorCapacity net)"
    and "sourceHabitat net < numHabitats net" "targetHabitat net < numHabitats net"
    and "sourceHabitat net \<noteq> targetHabitat net"
  shows "\<exists>fl used. solve net = Some ((fl, used), net)"
proof -
  let ?k = "numHabitats net"
  from add_corridors_state[OF assms(1)] obtain mf where
    m: "add_corridors (MaxFlow_init ?k) (corridorCapacity net) = Some mf" "wf_mf mf"
      "mf_n mf = ?k" "nonneg_matrix ?k (capacity mf)"
    by blast
  have p: "nonneg_matrix (mf_n mf) (capacity mf)" "sourceHabitat net < mf_n mf"
      "targetHabitat net < mf_n mf"
    using m(3,4) assms(2,3) by simp_all
  from maxflow_total[OF m(2) p assms(4)] obtain fl c' where
    r: "maxflow mf (sourceHabitat net) (targetHabitat net) = Some (fl, mf\<lparr> capacity := c' \<rparr>)"
    and lh: "loop_head mf (sourceHabitat net) (targetHabitat net) (fl, c')"
    by blast
  from loop_head_inv[OF m(2) p assms(4) lh] have "wf_matrix ?k c'"
    by (simp add: flow_inv_def m(3))
  then have "wf_matrix ?k (capacity (mf\<lparr> capacity := c' \<rparr>))" by simp
  from getUsedCorridors_total[OF this] obtain used where
    u: "getUsedCorridors (mf\<lparr> capacity := c' \<rparr>) ?k = Some used" by blast
  have "solve net = Some ((fl, used), net)"
    by (simp add: solve_def m(1) r u)
  then show ?thesis by (intro exI)
qed

text \<open>
  C10. On a network as \<open>buildCorridorNetwork\<close> leaves it (with source and target among
  the habitats and different), \<open>solve\<close> returns a result and the network it was called on,
  unchanged; a second call on the network the first one left returns the same result.
\<close>

theorem solve_leaves_network_unchanged:
  assumes "valid_corridors (numHabitats net) (corridorCapacity net)"
    and "sourceHabitat net < numHabitats net" "targetHabitat net < numHabitats net"
    and "sourceHabitat net \<noteq> targetHabitat net"
  shows "\<exists>res. solve net = Some (res, net) \<and>
     Option.bind (solve net) (\<lambda>r. solve (snd r)) = Some (res, net)"
proof -
  from solve_total[OF assms] obtain fl used where
    s: "solve net = Some ((fl, used), net)" by blast
  then have "Option.bind (solve net) (\<lambda>r. solve (snd r)) = Some ((fl, used), net)"
    by simp
  with s show ?thesis by (intro exI conjI)
qed

theorem solve_leaves_network_unchanged_witness:
  "valid_corridors 2 [((0, 1), 5)] \<and> (0::nat) < 2 \<and> (1::nat) < 2 \<and> (0::nat) \<noteq> 1 \<and>
   (\<exists>res. solve \<lparr> numHabitats = 2, habitatLocations = [(0, 0), (77, 0)],
        corridorCapacity = [((0, 1), 5)], sourceHabitat = 0, targetHabitat = 1 \<rparr>
      = Some (res, \<lparr> numHabitats = 2, habitatLocations = [(0, 0), (77, 0)],
        corridorCapacity = [((0, 1), 5)], sourceHabitat = 0, targetHabitat = 1 \<rparr>) \<and>
     Option.bind (solve \<lparr> numHabitats = 2, habitatLocations = [(0, 0), (77, 0)],
        corridorCapacity = [((0, 1), 5)], sourceHabitat = 0, targetHabitat = 1 \<rparr>)
       (\<lambda>r. solve (snd r))
      = Some (res, \<lparr> numHabitats = 2, habitatLocations = [(0, 0), (77, 0)],
        corridorCapacity = [((0, 1), 5)], sourceHabitat = 0, targetHabitat = 1 \<rparr>))"
proof -
  let ?net = "\<lparr> numHabitats = 2, habitatLocations = [(0, 0), (77, 0)],
        corridorCapacity = [((0, 1), 5)], sourceHabitat = 0, targetHabitat = 1 \<rparr>"
  have v: "valid_corridors 2 [((0, 1), 5)]"
    by (simp add: valid_corridors_def)
  have v': "valid_corridors (numHabitats ?net) (corridorCapacity ?net)"
    using v by simp
  have s: "sourceHabitat ?net < numHabitats ?net" "targetHabitat ?net < numHabitats ?net"
    "sourceHabitat ?net \<noteq> targetHabitat ?net"
    by simp_all
  have n: "(0::nat) < 2" "(1::nat) < 2" "(0::nat) \<noteq> 1" by simp_all
  from solve_leaves_network_unchanged[OF v' s] v n show ?thesis by (intro conjI)
qed

section \<open>The capacity rule in the arithmetic of double\<close>




















section \<open>The pipeline on concrete networks\<close>

text \<open>
  C2. Two habitats joined by one corridor of capacity 5, source 0 and target 1 (for
  instance the locations (0, 0) and (77, 0) with a maximal corridor distance of 100).
  The claim expects flow 5 and the used corridor list [((0, 1), 5)]. The flow is 5, but
  \<open>getUsedCorridors\<close> reports the reverse residual capacity, which \<open>solve\<close> has
  already set to 5 by adding the corridor in both directions: the list is [((0, 1), 10)].
\<close>

theorem solve_two_habitats_cap5:
  "map_option fst (solve \<lparr> numHabitats = 2, habitatLocations = [(0, 0), (77, 0)],
      corridorCapacity = [((0, 1), 5)], sourceHabitat = 0, targetHabitat = 1 \<rparr>)
   = Some (5, [((0, 1), 10)])"
  by code_simp

text \<open>
  C7. Three habitats, one corridor of capacity 5 between 0 and 1, source 0 and target 2:
  the target cannot be reached. The claim expects flow 0 and an empty used corridor list.
  The flow is 0 and there is no error, but the list holds the corridor between 0 and 1,
  which carried nothing: its reverse residual capacity is the 5 that \<open>solve\<close> put there.
\<close>

theorem solve_disconnected_target:
  "map_option fst (solve \<lparr> numHabitats = 3, habitatLocations = [(0, 0), (77, 0), (500, 0)],
      corridorCapacity = [((0, 1), 5)], sourceHabitat = 0, targetHabitat = 2 \<rparr>)
   = Some (0, [((0, 1), 5)])"
  by code_simp

end
